theory Spec2Isabelle
  imports Main "HOL-Library.Monad_Syntax"
begin

section \<open>The heap allocator of p3Heap.c\<close>

text \<open>
  The allocator keeps every piece of metadata inside the managed region: each block
  starts with a 4-byte header \<^verbatim>\<open>size_status\<close> (size in the high bits, two status bits
  in the low bits), and the word \<^verbatim>\<open>1\<close> marks the end.  The model keeps the code's view:
  memory is a function from byte addresses to the \<^verbatim>\<open>int\<close> stored there, pointers are
  addresses, and every loop of the source walks the memory by address arithmetic.

  All headers live at addresses that are multiples of 4 (the region is page aligned and
  block sizes are multiples of 8), so the 4-byte words never overlap and a memory of
  words indexed by address is faithful.  C's \<^verbatim>\<open>int\<close> is modelled by \<open>int\<close>; the only
  place where a 32-bit overflow can happen is the rounding in \<^verbatim>\<open>init_heap\<close>, and the
  reachable states below are those where the rounded request fits an \<^verbatim>\<open>int\<close>.
\<close>

subsection \<open>Data model\<close>

type_synonym addr = int
type_synonym memory = "addr \<Rightarrow> int"

definition NULL :: addr where
  "NULL = 0"

text \<open>C's \<^verbatim>\<open>%\<close> truncates towards zero: the result has the sign of the dividend.\<close>

definition c_rem :: "int \<Rightarrow> int \<Rightarrow> int" where
  "c_rem a b = sgn a * (\<bar>a\<bar> mod \<bar>b\<bar>)"

text \<open>\<^verbatim>\<open>sizeof(blockHeader)\<close>: one \<^verbatim>\<open>int\<close>.\<close>

abbreviation (input) sizeof_blockHeader :: int where
  "sizeof_blockHeader \<equiv> 4"

text \<open>
  The globals \<^verbatim>\<open>heap_start\<close> and \<^verbatim>\<open>alloc_size\<close>, the function-static
  \<^verbatim>\<open>allocated_once\<close> of \<^verbatim>\<open>init_heap\<close>, and the memory.
\<close>

record heap =
  mem :: memory
  heap_start :: addr
  alloc_size :: int
  allocated_once :: int

subsection \<open>balloc\<close>

text \<open>Lines 60 to 64: the payload plus the header, padded to a multiple of 8.\<close>

definition padded_block_size :: "int \<Rightarrow> int" where
  "padded_block_size size' =
     (let block_size = size' + sizeof_blockHeader in
      if c_rem block_size 8 \<noteq> 0 then block_size + (8 - c_rem block_size 8)
      else block_size)"

text \<open>Lines 82 to 90: the exact match. The header of the next block is read after the
  frontier's header has been written.\<close>

definition balloc_exact :: "heap \<Rightarrow> addr \<Rightarrow> int \<Rightarrow> addr \<times> heap" where
  "balloc_exact h frontier fr_size =
     (let m1 = (mem h)(frontier := mem h frontier + 1);
          next = frontier + fr_size;
          m2 = (if m1 next \<noteq> 1 then m1(next := m1 next + 2) else m1)
      in (frontier + sizeof_blockHeader, h\<lparr>mem := m2\<rparr>))"

text \<open>Lines 104 to 117: after the loop. \<^verbatim>\<open>best_fit\<close> and \<^verbatim>\<open>bf_size\<close> are one
  optional pair: \<^verbatim>\<open>bf_size\<close> is only read when \<^verbatim>\<open>best_fit\<close> is not \<^verbatim>\<open>NULL\<close>.\<close>

definition balloc_split :: "heap \<Rightarrow> int \<Rightarrow> (addr \<times> int) option \<Rightarrow> addr \<times> heap" where
  "balloc_split h block_size best =
     (case best of
        None \<Rightarrow> (NULL, h)
      | Some (best_fit, bf_size) \<Rightarrow>
          (let free_block = best_fit + block_size;
               m1 = (mem h)(free_block := bf_size - block_size + 2);
               m2 = m1(best_fit := block_size + c_rem (m1 best_fit) 8 + 1)
           in (best_fit + sizeof_blockHeader, h\<lparr>mem := m2\<rparr>)))"

text \<open>Lines 73 to 102: the scan. The loop has no bound of its own: on a memory without
  an end mark it runs forever, which is the value \<open>None\<close>.\<close>

partial_function (option) balloc_scan ::
  "heap \<Rightarrow> int \<Rightarrow> addr \<Rightarrow> (addr \<times> int) option \<Rightarrow> (addr \<times> heap) option" where
  "balloc_scan h block_size frontier best =
     (if mem h frontier \<noteq> 1 then
        (let rem = c_rem (mem h frontier) 8;
             fr_size = mem h frontier - rem
         in if (rem = 0 \<or> rem = 2) \<and> fr_size \<ge> block_size then
              (if fr_size = block_size then Some (balloc_exact h frontier fr_size)
               else if (case best of None \<Rightarrow> True | Some (best_fit, bf_size) \<Rightarrow> fr_size < bf_size)
               then balloc_scan h block_size (frontier + fr_size) (Some (frontier, fr_size))
               else balloc_scan h block_size (frontier + fr_size) best)
            else balloc_scan h block_size (frontier + fr_size) best)
      else Some (balloc_split h block_size best))"

definition balloc :: "heap \<Rightarrow> int \<Rightarrow> (addr \<times> heap) option" where
  "balloc h size' =
     (if size' \<le> 0 \<or> size' > alloc_size h then Some (NULL, h)
      else balloc_scan h (padded_block_size size') (heap_start h) None)"

subsection \<open>bfree\<close>

text \<open>\<^verbatim>\<open>(int)ptr % 8\<close> is zero exactly when the address is a multiple of 8, whatever
  the sign the cast gives it. The next header is read before the block's own header is
  written, and the block's header is read again after the next one has been written.\<close>

definition bfree :: "heap \<Rightarrow> addr \<Rightarrow> int \<times> heap" where
  "bfree h ptr =
     (if ptr = NULL then (- 1, h)
      else if c_rem ptr 8 \<noteq> 0 then (- 1, h)
      else if ptr < heap_start h \<or> ptr > heap_start h + alloc_size h then (- 1, h)
      else
        (let block = ptr - sizeof_blockHeader;
             rem = c_rem (mem h block) 8
         in if rem = 0 \<or> rem = 2 then (- 1, h)
            else
              (let next = block + (mem h block - rem);
                   m1 = (if mem h next \<noteq> 1 then (mem h)(next := mem h next - 2) else mem h);
                   m2 = m1(block := m1 block - 1)
               in (0, h\<lparr>mem := m2\<rparr>))))"

subsection \<open>coalesce\<close>

text \<open>Lines 179 to 183: the inner loop, which returns the accumulated \<^verbatim>\<open>fr_size\<close> and
  \<^verbatim>\<open>count\<close>. It reads memory and writes none.\<close>

partial_function (option) coalesce_inner ::
  "memory \<Rightarrow> addr \<Rightarrow> int \<Rightarrow> int \<Rightarrow> (int \<times> int) option" where
  "coalesce_inner m next fr_size count =
     (if m next \<noteq> 1 \<and> c_rem (m next) 8 = 0
      then coalesce_inner m (next + m next) (fr_size + m next) 1
      else Some (fr_size, count))"

text \<open>Lines 170 to 189: the outer loop.\<close>

partial_function (option) coalesce_loop ::
  "heap \<Rightarrow> addr \<Rightarrow> int \<Rightarrow> (int \<times> heap) option" where
  "coalesce_loop h frontier count =
     (if mem h frontier \<noteq> 1 then
        (let rem = c_rem (mem h frontier) 8;
             fr_size = mem h frontier - rem
         in if rem = 0 \<or> rem = 2 then
              do {
                (fr_size', count') \<leftarrow> coalesce_inner (mem h) (frontier + fr_size) fr_size count;
                coalesce_loop (h\<lparr>mem := (mem h)(frontier := fr_size' + rem)\<rparr>)
                  (frontier + fr_size') count'
              }
            else coalesce_loop h (frontier + fr_size) count)
      else Some (count, h))"

definition coalesce :: "heap \<Rightarrow> (int \<times> heap) option" where
  "coalesce h = coalesce_loop h (heap_start h) 0"

subsection \<open>init_heap\<close>

text \<open>
  What the operating system answers: \<^verbatim>\<open>getpagesize()\<close>, the descriptor returned by
  \<^verbatim>\<open>open("/dev/zero")\<close> (\<open>-1\<close> on failure) and the address returned by \<^verbatim>\<open>mmap\<close>
  (\<^verbatim>\<open>MAP_FAILED\<close>, which is \<open>(void *) -1\<close>, on failure). A successful \<^verbatim>\<open>mmap\<close> of
  \<^verbatim>\<open>/dev/zero\<close> gives zeroed memory.
\<close>

record env =
  getpagesize :: int
  open_dev_zero :: int
  mmap_ptr :: addr

definition MAP_FAILED :: addr where
  "MAP_FAILED = - 1"

definition mmap_zeroed :: "memory \<Rightarrow> addr \<Rightarrow> int \<Rightarrow> memory" where
  "mmap_zeroed m p len = (\<lambda>a. if p \<le> a \<and> a < p + len then 0 else m a)"

definition init_heap :: "env \<Rightarrow> heap \<Rightarrow> int \<Rightarrow> int \<times> heap" where
  "init_heap e h sizeOfRegion =
     (if 0 \<noteq> allocated_once h then (- 1, h)
      else if sizeOfRegion \<le> 0 then (- 1, h)
      else
        (let pagesize = getpagesize e;
             padsize = c_rem sizeOfRegion pagesize;
             padsize = c_rem (pagesize - padsize) pagesize;
             h1 = h\<lparr>alloc_size := sizeOfRegion + padsize\<rparr>;
             fd = open_dev_zero e
         in if - 1 = fd then (- 1, h1)
            else if MAP_FAILED = mmap_ptr e then (- 1, h1\<lparr>allocated_once := 0\<rparr>)
            else
              (let m0 = mmap_zeroed (mem h1) (mmap_ptr e) (alloc_size h1);
                   h2 = h1\<lparr>allocated_once := 1\<rparr>;
                   h3 = h2\<lparr>alloc_size := alloc_size h2 - 8\<rparr>;
                   h4 = h3\<lparr>heap_start := mmap_ptr e + sizeof_blockHeader\<rparr>;
                   end_mark = heap_start h4 + alloc_size h4;
                   m1 = m0(end_mark := 1);
                   m2 = m1(heap_start h4 := alloc_size h4);
                   m3 = m2(heap_start h4 := m2 (heap_start h4) + 2);
                   footer = heap_start h4 + alloc_size h4 - 4;
                   m4 = m3(footer := alloc_size h4)
               in (0, h4\<lparr>mem := m4\<rparr>))))"

text \<open>The state of the process before any call: the globals are zero initialised.\<close>

definition start_heap :: "memory \<Rightarrow> heap" where
  "start_heap m = \<lparr>mem = m, heap_start = NULL, alloc_size = 0, allocated_once = 0\<rparr>"

section \<open>The block list\<close>

text \<open>The two status bits of a header: bit 0 says that the block is allocated, bit 1
  that the block before it is.\<close>

definition is_allocated :: "int \<Rightarrow> bool" where
  "is_allocated x = bit x 0"

definition pred_allocated :: "int \<Rightarrow> bool" where
  "pred_allocated x = bit x 1"

definition blk_size :: "int \<Rightarrow> int" where
  "blk_size x = x - c_rem x 8"

definition hdr_ok :: "int \<Rightarrow> bool" where
  "hdr_ok x = (8 \<le> x \<and> x mod 8 < 4)"

partial_function (option) blocks_from :: "memory \<Rightarrow> addr \<Rightarrow> (addr \<times> int) list option" where
  "blocks_from m current =
     (if m current \<noteq> 1 then
        do {
          bs \<leftarrow> blocks_from m (current + (m current - c_rem (m current) 8));
          Some ((current, m current) # bs)
        }
      else Some [])"

definition heap_blocks :: "heap \<Rightarrow> (addr \<times> int) list option" where
  "heap_blocks h = blocks_from (mem h) (heap_start h)"

fun chain :: "memory \<Rightarrow> addr \<Rightarrow> (addr \<times> int) list \<Rightarrow> addr \<Rightarrow> bool" where
  "chain m a [] e = (a = e)"
| "chain m a ((b, x) # bs) e = (b = a \<and> m a = x \<and> hdr_ok x \<and> chain m (a + blk_size x) bs e)"

fun pbits :: "bool \<Rightarrow> (addr \<times> int) list \<Rightarrow> bool" where
  "pbits p [] = True"
| "pbits p ((b, x) # bs) = (pred_allocated x = p \<and> pbits (is_allocated x) bs)"

definition total_size :: "(addr \<times> int) list \<Rightarrow> int" where
  "total_size bs = sum_list (map (\<lambda>(b, x). blk_size x) bs)"

definition wf_heap :: "heap \<Rightarrow> (addr \<times> int) list \<Rightarrow> bool" where
  "wf_heap h bs \<longleftrightarrow>
     chain (mem h) (heap_start h) bs (heap_start h + alloc_size h) \<and>
     mem h (heap_start h + alloc_size h) = 1 \<and>
     pbits True bs \<and>
     heap_start h mod 8 = 4 \<and> 0 < heap_start h \<and> 0 < alloc_size h"

fun best_scan :: "int \<Rightarrow> (addr \<times> int) list \<Rightarrow> (addr \<times> int) option \<Rightarrow> (addr \<times> int) option" where
  "best_scan req [] best = best"
| "best_scan req ((b, x) # bs) best =
     best_scan req bs
       (if \<not> is_allocated x \<and> req \<le> blk_size x \<and>
           (case best of None \<Rightarrow> True | Some (best_fit, bf_size) \<Rightarrow> blk_size x < bf_size)
        then Some (b, blk_size x) else best)"

definition mk_hdr :: "int \<Rightarrow> bool \<Rightarrow> bool \<Rightarrow> int" where
  "mk_hdr sz p a = sz + (if p then 2 else 0) + (if a then 1 else 0)"

definition last_a :: "bool \<Rightarrow> (addr \<times> int) list \<Rightarrow> bool" where
  "last_a p bs = (if bs = [] then p else is_allocated (snd (last bs)))"

fun set_pred :: "(addr \<times> int) list \<Rightarrow> (addr \<times> int) list" where
  "set_pred [] = []"
| "set_pred ((c, y) # ys) = (c, y + 2) # ys"

fun clear_pred :: "(addr \<times> int) list \<Rightarrow> (addr \<times> int) list" where
  "clear_pred [] = []"
| "clear_pred ((c, y) # ys) = (c, y - 2) # ys"

definition same_globals :: "heap \<Rightarrow> heap \<Rightarrow> bool" where
  "same_globals h h' \<longleftrightarrow>
     heap_start h' = heap_start h \<and> alloc_size h' = alloc_size h \<and>
     allocated_once h' = allocated_once h"

definition is_free_block :: "addr \<times> int \<Rightarrow> bool" where
  "is_free_block z = (\<not> is_allocated (snd z))"

function merge_runs :: "(addr \<times> int) list \<Rightarrow> (addr \<times> int) list" where
  "merge_runs [] = []"
| "merge_runs ((b, x) # bs) =
     (if is_allocated x then (b, x) # merge_runs bs
      else (b, x + total_size (takeWhile is_free_block bs)) #
           merge_runs (dropWhile is_free_block bs))"
  by pat_completeness auto

termination merge_runs
  by (relation "measure length") (auto simp: less_Suc_eq_le length_dropWhile_le)

fun adjacent_free :: "(addr \<times> int) list \<Rightarrow> bool" where
  "adjacent_free (z # z' # bs) = (is_free_block z \<and> is_free_block z' \<or> adjacent_free (z' # bs))"
| "adjacent_free [z] = False"
| "adjacent_free [] = False"

text \<open>
  What the allocator may assume of the operating system: pages are larger than the 8
  bytes of bookkeeping and a multiple of 8 bytes long, and a mapping starts on a page
  boundary above address 0.
\<close>

definition env_ok :: "env \<Rightarrow> bool" where
  "env_ok e \<longleftrightarrow>
     8 < getpagesize e \<and> getpagesize e mod 8 = 0 \<and>
     0 < mmap_ptr e \<and> mmap_ptr e mod getpagesize e = 0"

text \<open>
  The states a client can bring the allocator to. The client initialises the heap
  (with a request whose page-rounded size fits a C \<^verbatim>\<open>int\<close>), allocates, coalesces,
  writes into the payload of a block it holds, and releases the payload address of a
  block of the list (whether that block is still allocated or not).
\<close>

inductive reachable :: "heap \<Rightarrow> bool" where
  reach_init:
    "env_ok e \<Longrightarrow> init_heap e h0 sizeOfRegion = (0, h) \<Longrightarrow> alloc_size h + 8 < 2 ^ 31 \<Longrightarrow>
     reachable h"
| reach_balloc:
    "reachable h \<Longrightarrow> balloc h size' = Some (p, h') \<Longrightarrow> reachable h'"
| reach_bfree:
    "reachable h \<Longrightarrow> heap_blocks h = Some bs \<Longrightarrow> (b, x) \<in> set bs \<Longrightarrow>
     bfree h (b + sizeof_blockHeader) = (r, h') \<Longrightarrow> reachable h'"
| reach_coalesce:
    "reachable h \<Longrightarrow> coalesce h = Some (c, h') \<Longrightarrow> reachable h'"
| reach_store:
    "reachable h \<Longrightarrow> heap_blocks h = Some bs \<Longrightarrow> (b, x) \<in> set bs \<Longrightarrow> is_allocated x \<Longrightarrow>
     b + sizeof_blockHeader \<le> a \<Longrightarrow> a < b + blk_size x \<Longrightarrow>
     reachable (h\<lparr>mem := (mem h)(a := v)\<rparr>)"

text \<open>A process with 4096-byte pages whose first call is \<^verbatim>\<open>init_heap(4096)\<close>, mapped at
  address 65536: one free block of 4088 bytes at 65540 and the end mark at 69628.\<close>

definition example_env :: env where
  "example_env = \<lparr>getpagesize = 4096, open_dev_zero = 3, mmap_ptr = 65536\<rparr>"

definition example_heap :: heap where
  "example_heap = snd (init_heap example_env (start_heap (\<lambda>a. 0)) 4096)"

text \<open>The heap of the example after \<^verbatim>\<open>balloc(36)\<close>, \<^verbatim>\<open>balloc(12)\<close> and \<^verbatim>\<open>balloc(60)\<close> and the
  release of the three blocks: free blocks of 40, 16 and 64 bytes at increasing addresses,
  followed by the free rest of the region.\<close>

definition example_a1 :: heap where
  "example_a1 = snd (the (balloc example_heap 36))"

definition example_a2 :: heap where
  "example_a2 = snd (the (balloc example_a1 12))"

definition example_a3 :: heap where
  "example_a3 = snd (the (balloc example_a2 60))"

definition example_a4 :: heap where
  "example_a4 = snd (bfree example_a3 65544)"

definition example_a5 :: heap where
  "example_a5 = snd (bfree example_a4 65584)"

definition example_a6 :: heap where
  "example_a6 = snd (bfree example_a5 65600)"

text \<open>The heap of the example after \<^verbatim>\<open>p = balloc(100)\<close>, then after \<^verbatim>\<open>bfree(p)\<close>, and then
  after a second request of 4 bytes or of 100 bytes.\<close>

definition example_b1 :: heap where
  "example_b1 = snd (the (balloc example_heap 100))"

definition example_b2 :: heap where
  "example_b2 = snd (bfree example_b1 65544)"

definition example_b3 :: heap where
  "example_b3 = snd (the (balloc example_b2 4))"

definition example_b4 :: heap where
  "example_b4 = snd (the (balloc example_b2 100))"

text \<open>The heap of the example after requests of 12, 20, 28 and 100 bytes and the release of
  the first three blocks: free blocks of 16, 24 and 32 bytes followed by an allocated
  block.\<close>

definition example_q1 :: heap where
  "example_q1 = snd (the (balloc example_heap 12))"

definition example_q2 :: heap where
  "example_q2 = snd (the (balloc example_q1 20))"

definition example_q3 :: heap where
  "example_q3 = snd (the (balloc example_q2 28))"

definition example_q4 :: heap where
  "example_q4 = snd (the (balloc example_q3 100))"

definition example_q5 :: heap where
  "example_q5 = snd (bfree example_q4 65544)"

definition example_q6 :: heap where
  "example_q6 = snd (bfree example_q5 65560)"

definition example_q7 :: heap where
  "example_q7 = snd (bfree example_q6 65584)"

text \<open>The heap after \<^verbatim>\<open>p = balloc(100)\<close> once the client has stored the value 4 in the
  second word of its payload, as in \<^verbatim>\<open>((int *)p)[1] = 4\<close>.\<close>

definition example_s1 :: heap where
  "example_s1 = example_b1\<lparr>mem := (mem example_b1)(65548 := 4)\<rparr>"

section \<open>Properties of the block list and of the operations\<close>

lemma is_allocated_odd: "is_allocated x = odd x"
  by (simp add: is_allocated_def bit_0)

lemma pred_allocated_odd: "pred_allocated x = odd (x div 2)"
  by (simp add: pred_allocated_def bit_iff_odd)

lemma c_rem_nonneg: "0 \<le> a \<Longrightarrow> c_rem a 8 = a mod 8"
  by (cases "a = 0") (simp_all add: c_rem_def)

lemma c_rem_zero_iff: "c_rem a 8 = 0 \<longleftrightarrow> a mod 8 = 0"
  unfolding c_rem_def by (cases "a < 0"; cases "a = 0") (auto simp: sgn_if zmod_zminus1_eq_if)

lemma hdr_ok_rem: "hdr_ok x \<Longrightarrow> c_rem x 8 = x mod 8"
  by (simp add: hdr_ok_def c_rem_nonneg)

lemma hdr_ok_not_end: "hdr_ok x \<Longrightarrow> x \<noteq> 1"
  by (auto simp: hdr_ok_def)

lemma hdr_ok_size: "hdr_ok x \<Longrightarrow> blk_size x = x - x mod 8"
  by (simp add: blk_size_def hdr_ok_rem)

lemma hdr_ok_size_pos: "hdr_ok x \<Longrightarrow> 8 \<le> blk_size x"
  unfolding hdr_ok_def blk_size_def by (simp add: c_rem_nonneg; presburger?)

lemma hdr_ok_size_mod: "hdr_ok x \<Longrightarrow> blk_size x mod 8 = 0"
  unfolding hdr_ok_def blk_size_def by (simp add: c_rem_nonneg; presburger?)

lemma hdr_ok_free: "hdr_ok x \<Longrightarrow> (c_rem x 8 = 0 \<or> c_rem x 8 = 2) \<longleftrightarrow> \<not> is_allocated x"
  unfolding hdr_ok_def is_allocated_odd by (simp add: c_rem_nonneg; presburger?)

lemma total_size_simps [simp]:
  "total_size [] = 0"
  "total_size ((b, x) # bs) = blk_size x + total_size bs"
  "total_size (xs @ ys) = total_size xs + total_size ys"
  by (simp_all add: total_size_def)

lemma chain_end: "chain m a bs e \<Longrightarrow> e = a + total_size bs"
  by (induction bs arbitrary: a) fastforce+

lemma total_size_nonneg: "chain m a bs e \<Longrightarrow> 0 \<le> total_size bs"
  by (induction bs arbitrary: a) (fastforce dest: hdr_ok_size_pos)+

lemma chain_le: "chain m a bs e \<Longrightarrow> a \<le> e"
  using chain_end total_size_nonneg by fastforce

lemma chain_append:
  "chain m a (xs @ ys) e \<longleftrightarrow> chain m a xs (a + total_size xs) \<and> chain m (a + total_size xs) ys e"
  by (induction xs arbitrary: a) (auto simp: algebra_simps)

lemma chain_mem:
  "chain m a bs e \<Longrightarrow> (b, x) \<in> set bs \<Longrightarrow> a \<le> b \<and> b + blk_size x \<le> e \<and> m b = x \<and> hdr_ok x"
proof (induction bs arbitrary: a)
  case Nil
  then show ?case by simp
next
  case (Cons y bs)
  obtain c z where y: "y = (c, z)" by (cases y)
  from Cons.prems y have c: "c = a" "m a = z" "hdr_ok z" "chain m (a + blk_size z) bs e"
    by auto
  show ?case
  proof (cases "(b, x) = (c, z)")
    case True
    with c chain_le [OF c(4)] show ?thesis by auto
  next
    case False
    with Cons.prems y have "(b, x) \<in> set bs" by auto
    from Cons.IH [OF c(4) this] hdr_ok_size_pos [OF c(3)] show ?thesis by auto
  qed
qed

lemma chain_frame:
  "chain m a bs e \<Longrightarrow> u \<notin> fst ` set bs \<Longrightarrow> chain (m(u := v)) a bs e"
  by (induction bs arbitrary: a) auto

lemma chain_frame_below: "chain m a bs e \<Longrightarrow> u < a \<Longrightarrow> chain (m(u := v)) a bs e"
  by (rule chain_frame) (auto dest: chain_mem)

lemma chain_frame_above: "chain m a bs e \<Longrightarrow> e \<le> u \<Longrightarrow> chain (m(u := v)) a bs e"
  by (rule chain_frame) (auto dest!: chain_mem hdr_ok_size_pos)

lemma blocks_from_chain: "chain m a bs e \<Longrightarrow> m e = 1 \<Longrightarrow> blocks_from m a = Some bs"
proof (induction bs arbitrary: a)
  case Nil
  then show ?case by (simp add: blocks_from.simps)
next
  case (Cons y bs)
  obtain c z where y: "y = (c, z)" by (cases y)
  from Cons.prems y have c: "c = a" "m a = z" "hdr_ok z" "chain m (a + blk_size z) bs e"
    by auto
  from Cons.IH [OF c(4) Cons.prems(2)] c y show ?case
    by (subst blocks_from.simps) (simp add: hdr_ok_not_end blk_size_def)
qed

lemma balloc_scan_end: "mem h a = 1 \<Longrightarrow> balloc_scan h req a best = Some (balloc_split h req best)"
  by (subst balloc_scan.simps) simp

lemma balloc_scan_step:
  assumes "mem h a = x" and "hdr_ok x"
  shows "balloc_scan h req a best =
     (if \<not> is_allocated x \<and> req \<le> blk_size x then
        (if blk_size x = req then Some (balloc_exact h a (blk_size x))
         else balloc_scan h req (a + blk_size x)
           (if (case best of None \<Rightarrow> True | Some (best_fit, bf_size) \<Rightarrow> blk_size x < bf_size)
            then Some (a, blk_size x) else best))
      else balloc_scan h req (a + blk_size x) best)"
proof -
  have r: "(c_rem x 8 = 0 \<or> c_rem x 8 = 2) \<longleftrightarrow> \<not> is_allocated x"
    by (rule hdr_ok_free [OF assms(2)])
  have ne: "x \<noteq> 1" by (rule hdr_ok_not_end [OF assms(2)])
  have sz: "x - c_rem x 8 = blk_size x" by (simp add: blk_size_def)
  show ?thesis
    apply (subst balloc_scan.simps)
    apply (simp only: assms(1) Let_def sz r ne)
    apply (simp split: option.split)
    done
qed

lemma scan_exact:
  assumes "chain (mem h) a (xs @ (b, x) # ys) e"
    and "\<forall>(c, y) \<in> set xs. \<not> (\<not> is_allocated y \<and> blk_size y = req)"
    and "\<not> is_allocated x" and "blk_size x = req"
  shows "balloc_scan h req a best = Some (balloc_exact h b req)"
  using assms
proof (induction xs arbitrary: a best)
  case Nil
  then show ?case by (simp add: balloc_scan_step [of h a x])
next
  case (Cons z xs)
  obtain c y where z: "z = (c, y)" by (cases z)
  from Cons.prems z have c: "c = a" "mem h a = y" "hdr_ok y"
    "chain (mem h) (a + blk_size y) (xs @ (b, x) # ys) e" "\<not> (\<not> is_allocated y \<and> blk_size y = req)"
    by auto
  have rest: "\<forall>(c, y) \<in> set xs. \<not> (\<not> is_allocated y \<and> blk_size y = req)"
    using Cons.prems(2) by simp
  have "balloc_scan h req (a + blk_size y) best' = Some (balloc_exact h b req)" for best'
    by (rule Cons.IH [OF c(4) rest Cons.prems(3,4)])
  with c show ?case by (auto simp: balloc_scan_step [of h a y])
qed

lemma scan_no_exact:
  assumes "chain (mem h) a bs e" and "mem h e = 1"
    and "\<forall>(c, y) \<in> set bs. \<not> (\<not> is_allocated y \<and> blk_size y = req)"
  shows "balloc_scan h req a best = Some (balloc_split h req (best_scan req bs best))"
  using assms
proof (induction bs arbitrary: a best)
  case Nil
  then show ?case by (simp add: balloc_scan_end)
next
  case (Cons z bs)
  obtain c y where z: "z = (c, y)" by (cases z)
  from Cons.prems z have c: "c = a" "mem h a = y" "hdr_ok y"
    "chain (mem h) (a + blk_size y) bs e" "\<not> (\<not> is_allocated y \<and> blk_size y = req)"
    by auto
  have rest: "\<forall>(c, y) \<in> set bs. \<not> (\<not> is_allocated y \<and> blk_size y = req)"
    using Cons.prems(3) by simp
  have IH: "balloc_scan h req (a + blk_size y) best' =
      Some (balloc_split h req (best_scan req bs best'))" for best'
    by (rule Cons.IH [OF c(4) Cons.prems(2) rest])
  have step: "balloc_scan h req a best =
      balloc_scan h req (a + blk_size y)
        (if \<not> is_allocated y \<and> req \<le> blk_size y \<and>
            (case best of None \<Rightarrow> True | Some (best_fit, bf_size) \<Rightarrow> blk_size y < bf_size)
         then Some (a, blk_size y) else best)"
    using c(5) by (subst balloc_scan_step [OF c(2,3)]) auto
  show ?case unfolding step IH z c(1) by simp
qed

lemma hdr_char:
  assumes "y = 8 * k + r" and "0 \<le> k" and "0 \<le> r" and "r < 8"
  shows "c_rem y 8 = r" and "blk_size y = 8 * k" and "is_allocated y = odd r"
    and "pred_allocated y = odd (r div 2)" and "hdr_ok y = (1 \<le> k \<and> r < 4)"
proof -
  from assms have y: "0 \<le> y" "y mod 8 = r" "y div 8 = k" by auto
  then show "c_rem y 8 = r" by (simp add: c_rem_nonneg)
  then show "blk_size y = 8 * k" using assms(1) by (simp add: blk_size_def)
  show "is_allocated y = odd r" unfolding is_allocated_odd assms(1) by simp
  have "y div 2 = 4 * k + r div 2" unfolding assms(1) by simp
  then show "pred_allocated y = odd (r div 2)" unfolding pred_allocated_odd by simp
  show "hdr_ok y = (1 \<le> k \<and> r < 4)" unfolding hdr_ok_def using y assms by auto
qed

lemma mk_hdr_props:
  assumes "8 \<le> sz" and "sz mod 8 = 0"
  shows "hdr_ok (mk_hdr sz p a)" and "blk_size (mk_hdr sz p a) = sz"
    and "pred_allocated (mk_hdr sz p a) = p" and "is_allocated (mk_hdr sz p a) = a"
    and "c_rem (mk_hdr sz p a) 8 = (if p then 2 else 0) + (if a then 1 else 0)"
proof -
  from assms(2) obtain j where j: "sz = 8 * j" by (auto simp: mod_eq_0_iff_dvd)
  with assms(1) have j1: "1 \<le> j" "0 \<le> j" by simp_all
  define r :: int where "r = (if p then 2 else 0) + (if a then 1 else 0)"
  have r: "0 \<le> r" "r < 8" "r < 4" "odd r = a" "odd (r div 2) = p"
    by (simp_all add: r_def)
  have eq: "mk_hdr sz p a = 8 * j + r" by (simp add: mk_hdr_def j r_def)
  note h = hdr_char [OF eq j1(2) r(1,2)]
  show "hdr_ok (mk_hdr sz p a)" using h(5) j1 r by simp
  show "blk_size (mk_hdr sz p a) = sz" using h(2) j by simp
  show "pred_allocated (mk_hdr sz p a) = p" using h(4) r by simp
  show "is_allocated (mk_hdr sz p a) = a" using h(3) r by simp
  show "c_rem (mk_hdr sz p a) 8 = (if p then 2 else 0) + (if a then 1 else 0)"
    using h(1) by (simp add: r_def)
qed

lemma hdr_ok_mk:
  assumes "hdr_ok x"
  shows "x = mk_hdr (blk_size x) (pred_allocated x) (is_allocated x)"
    and "8 \<le> blk_size x" and "blk_size x mod 8 = 0"
proof -
  define k r where "k = x div 8" and "r = x mod 8"
  from assms have x: "8 \<le> x" "r < 4" "0 \<le> r" by (simp_all add: hdr_ok_def r_def)
  have eq: "x = 8 * k + r" by (simp add: k_def r_def)
  from x(1) have k: "1 \<le> k" "0 \<le> k" by (simp_all add: k_def)
  from x have r8: "r < 8" by simp
  note h = hdr_char [OF eq k(2) x(3) r8]
  from x have "r = 0 \<or> r = 1 \<or> r = 2 \<or> r = 3" by arith
  then have "r = (if odd (r div 2) then 2 else 0) + (if odd r then 1 else 0)" by auto
  with eq h show "x = mk_hdr (blk_size x) (pred_allocated x) (is_allocated x)"
    by (simp add: mk_hdr_def)
  show "8 \<le> blk_size x" using h(2) k by simp
  show "blk_size x mod 8 = 0" using h(2) by simp
qed

lemma hdr_set_a:
  assumes "hdr_ok x" and "\<not> is_allocated x"
  shows "hdr_ok (x + 1)" and "blk_size (x + 1) = blk_size x" and "is_allocated (x + 1)"
    and "pred_allocated (x + 1) = pred_allocated x"
proof -
  note m = hdr_ok_mk [OF assms(1)]
  have "x + 1 = mk_hdr (blk_size x) (pred_allocated x) True"
    by (subst m(1)) (simp add: mk_hdr_def assms(2))
  then show "hdr_ok (x + 1)" and "blk_size (x + 1) = blk_size x" and "is_allocated (x + 1)"
    and "pred_allocated (x + 1) = pred_allocated x"
    using mk_hdr_props [OF m(2,3)] by simp_all
qed

lemma hdr_set_p:
  assumes "hdr_ok x" and "\<not> pred_allocated x"
  shows "hdr_ok (x + 2)" and "blk_size (x + 2) = blk_size x" and "pred_allocated (x + 2)"
    and "is_allocated (x + 2) = is_allocated x"
proof -
  note m = hdr_ok_mk [OF assms(1)]
  have "x + 2 = mk_hdr (blk_size x) True (is_allocated x)"
    by (subst m(1)) (simp add: mk_hdr_def assms(2))
  then show "hdr_ok (x + 2)" and "blk_size (x + 2) = blk_size x" and "pred_allocated (x + 2)"
    and "is_allocated (x + 2) = is_allocated x"
    using mk_hdr_props [OF m(2,3)] by simp_all
qed

lemma hdr_clear_a:
  assumes "hdr_ok x" and "is_allocated x"
  shows "hdr_ok (x - 1)" and "blk_size (x - 1) = blk_size x" and "\<not> is_allocated (x - 1)"
    and "pred_allocated (x - 1) = pred_allocated x"
proof -
  note m = hdr_ok_mk [OF assms(1)]
  have "x - 1 = mk_hdr (blk_size x) (pred_allocated x) False"
    by (subst m(1)) (simp add: mk_hdr_def assms(2))
  then show "hdr_ok (x - 1)" and "blk_size (x - 1) = blk_size x" and "\<not> is_allocated (x - 1)"
    and "pred_allocated (x - 1) = pred_allocated x"
    using mk_hdr_props [OF m(2,3)] by simp_all
qed

lemma hdr_clear_p:
  assumes "hdr_ok x" and "pred_allocated x"
  shows "hdr_ok (x - 2)" and "blk_size (x - 2) = blk_size x" and "\<not> pred_allocated (x - 2)"
    and "is_allocated (x - 2) = is_allocated x"
proof -
  note m = hdr_ok_mk [OF assms(1)]
  have "x - 2 = mk_hdr (blk_size x) False (is_allocated x)"
    by (subst m(1)) (simp add: mk_hdr_def assms(2))
  then show "hdr_ok (x - 2)" and "blk_size (x - 2) = blk_size x" and "\<not> pred_allocated (x - 2)"
    and "is_allocated (x - 2) = is_allocated x"
    using mk_hdr_props [OF m(2,3)] by simp_all
qed

lemma hdr_split_first:
  assumes "hdr_ok x" and "\<not> is_allocated x" and "8 \<le> req" and "req mod 8 = 0"
  shows "hdr_ok (req + c_rem x 8 + 1)" and "blk_size (req + c_rem x 8 + 1) = req"
    and "is_allocated (req + c_rem x 8 + 1)"
    and "pred_allocated (req + c_rem x 8 + 1) = pred_allocated x"
proof -
  note m = hdr_ok_mk [OF assms(1)]
  have "c_rem x 8 = (if pred_allocated x then 2 else 0)"
    by (subst m(1)) (simp add: mk_hdr_props [OF m(2,3)] assms(2))
  then have "req + c_rem x 8 + 1 = mk_hdr req (pred_allocated x) True"
    by (simp add: mk_hdr_def)
  then show "hdr_ok (req + c_rem x 8 + 1)" and "blk_size (req + c_rem x 8 + 1) = req"
    and "is_allocated (req + c_rem x 8 + 1)"
    and "pred_allocated (req + c_rem x 8 + 1) = pred_allocated x"
    using mk_hdr_props [OF assms(3,4)] by simp_all
qed

lemma hdr_split_second:
  assumes "hdr_ok x" and "req < blk_size x" and "req mod 8 = 0"
  shows "hdr_ok (blk_size x - req + 2)" and "blk_size (blk_size x - req + 2) = blk_size x - req"
    and "\<not> is_allocated (blk_size x - req + 2)" and "pred_allocated (blk_size x - req + 2)"
proof -
  note m = hdr_ok_mk [OF assms(1)]
  from m(3) assms(2,3) have d: "8 \<le> blk_size x - req" "(blk_size x - req) mod 8 = 0"
    by presburger+
  have "blk_size x - req + 2 = mk_hdr (blk_size x - req) True False"
    by (simp add: mk_hdr_def)
  then show "hdr_ok (blk_size x - req + 2)"
    and "blk_size (blk_size x - req + 2) = blk_size x - req"
    and "\<not> is_allocated (blk_size x - req + 2)" and "pred_allocated (blk_size x - req + 2)"
    using mk_hdr_props [OF d] by simp_all
qed

lemma chain_cong:
  "chain m a bs e \<Longrightarrow> (\<And>u. a \<le> u \<Longrightarrow> u < e \<Longrightarrow> m' u = m u) \<Longrightarrow> chain m' a bs e"
proof (induction bs arbitrary: a)
  case Nil
  then show ?case by simp
next
  case (Cons z bs)
  obtain c y where z: "z = (c, y)" by (cases z)
  from Cons.prems(1) z have c: "c = a" "m a = y" "hdr_ok y" "chain m (a + blk_size y) bs e"
    by auto
  from hdr_ok_size_pos [OF c(3)] chain_le [OF c(4)] have lt: "a < a + blk_size y" "a < e"
    by auto
  have "chain m' (a + blk_size y) bs e"
  proof (rule Cons.IH [OF c(4)])
    fix u assume "a + blk_size y \<le> u" and "u < e"
    with lt show "m' u = m u" by (intro Cons.prems(2)) auto
  qed
  moreover have "m' a = y" using Cons.prems(2) [of a] lt c(2) by simp
  ultimately show ?case using z c by simp
qed

lemma chain_at:
  assumes "chain m a (xs @ (b, x) # ys) e"
  shows "b = a + total_size xs" and "m b = x" and "hdr_ok x"
    and "chain m (b + blk_size x) ys e" and "chain m a xs b"
    and "a \<le> b" and "b + blk_size x \<le> e"
proof -
  from assms have c1: "chain m a xs (a + total_size xs)"
    and c2: "chain m (a + total_size xs) ((b, x) # ys) e"
    by (simp_all add: chain_append)
  from c2 show b: "b = a + total_size xs" by simp
  from c2 b show "m b = x" and "hdr_ok x" and c3: "chain m (b + blk_size x) ys e" by simp_all
  from c1 b show "chain m a xs b" by simp
  then show "a \<le> b" by (rule chain_le)
  from c3 show "b + blk_size x \<le> e" by (rule chain_le)
qed

lemma chain_replace:
  assumes "chain m a (xs @ mid @ ys) e"
    and "chain m' (a + total_size xs) mid' (a + total_size xs + total_size mid)"
    and "\<And>u. u < a + total_size xs \<or> a + total_size xs + total_size mid \<le> u \<Longrightarrow> m' u = m u"
  shows "chain m' a (xs @ mid' @ ys) e"
proof -
  let ?lo = "a + total_size xs" and ?hi = "a + total_size xs + total_size mid"
  from assms(1) have c1: "chain m a xs ?lo" and c2: "chain m ?lo mid ?hi"
    and c3: "chain m ?hi ys e"
    by (simp_all add: chain_append algebra_simps)
  from chain_end [OF assms(2)] have t: "total_size mid' = total_size mid" by simp
  have d1: "chain m' a xs ?lo" by (rule chain_cong [OF c1]) (simp add: assms(3))
  have d3: "chain m' ?hi ys e" by (rule chain_cong [OF c3]) (simp add: assms(3))
  from d1 assms(2) d3 t show ?thesis by (simp add: chain_append algebra_simps)
qed

lemma pbits_append: "pbits p (xs @ ys) \<longleftrightarrow> pbits p xs \<and> pbits (last_a p xs) ys"
  by (induction xs arbitrary: p) (auto simp: last_a_def)

lemma wf_heapD:
  assumes "wf_heap h bs"
  shows "chain (mem h) (heap_start h) bs (heap_start h + alloc_size h)"
    and "mem h (heap_start h + alloc_size h) = 1" and "pbits True bs"
    and "heap_start h mod 8 = 4" and "0 < heap_start h" and "0 < alloc_size h"
  using assms by (simp_all add: wf_heap_def)

lemma wf_heap_blocks: "wf_heap h bs \<Longrightarrow> heap_blocks h = Some bs"
  unfolding heap_blocks_def by (rule blocks_from_chain [OF wf_heapD(1,2)])

lemma wf_update_last:
  assumes wf: "wf_heap h (xs @ [(b, x)])"
    and x': "hdr_ok x'" "blk_size x' = blk_size x" "pred_allocated x' = pred_allocated x"
  shows "wf_heap (h\<lparr>mem := (mem h)(b := x')\<rparr>) (xs @ [(b, x')])"
proof -
  let ?a = "heap_start h" and ?e = "heap_start h + alloc_size h"
  note w = wf_heapD [OF wf]
  note at = chain_at [OF w(1)]
  from at(4) have e: "?e = b + blk_size x" by simp
  from hdr_ok_size_pos [OF at(3)] e have be: "b < ?e" by simp
  have "chain ((mem h)(b := x')) ?a (xs @ [(b, x')] @ []) ?e"
  proof (rule chain_replace [where mid = "[(b, x)]" and m = "mem h"])
    show "chain (mem h) ?a (xs @ [(b, x)] @ []) ?e" using w(1) by simp
    show "chain ((mem h)(b := x')) (?a + total_size xs) [(b, x')]
        (?a + total_size xs + total_size [(b, x)])"
      using at(1) x' by simp
    show "((mem h)(b := x')) u = mem h u"
      if "u < ?a + total_size xs \<or> ?a + total_size xs + total_size [(b, x)] \<le> u" for u
      using that at(1) hdr_ok_size_pos [OF at(3)] by auto
  qed
  moreover have "pbits True (xs @ [(b, x')])"
    using w(3) x'(3) by (simp add: pbits_append)
  ultimately show ?thesis using w be by (simp add: wf_heap_def)
qed

lemma wf_update_mid:
  assumes wf: "wf_heap h (xs @ (b, x) # (c, y) # t)"
    and x': "hdr_ok x'" "blk_size x' = blk_size x" "pred_allocated x' = pred_allocated x"
    and y': "hdr_ok y'" "blk_size y' = blk_size y" "is_allocated y' = is_allocated y"
      "pred_allocated y' = is_allocated x'"
  shows "wf_heap (h\<lparr>mem := (mem h)(b := x', c := y')\<rparr>) (xs @ (b, x') # (c, y') # t)"
proof -
  let ?a = "heap_start h" and ?e = "heap_start h + alloc_size h"
  let ?m = "(mem h)(b := x', c := y')"
  note w = wf_heapD [OF wf]
  note at = chain_at [OF w(1)]
  from at(4) have c: "c = b + blk_size x" "mem h c = y" "hdr_ok y"
    and rest: "chain (mem h) (c + blk_size y) t ?e" by simp_all
  from hdr_ok_size_pos [OF at(3)] hdr_ok_size_pos [OF c(3)] c(1) chain_le [OF rest]
  have lt: "b < c" "c < ?e" by simp_all
  have "chain ?m ?a (xs @ [(b, x'), (c, y')] @ t) ?e"
  proof (rule chain_replace [where mid = "[(b, x), (c, y)]" and m = "mem h"])
    show "chain (mem h) ?a (xs @ [(b, x), (c, y)] @ t) ?e" using w(1) by simp
    show "chain ?m (?a + total_size xs) [(b, x'), (c, y')]
        (?a + total_size xs + total_size [(b, x), (c, y)])"
      using at(1) x' y' c(1) lt by simp
    show "?m u = mem h u"
      if "u < ?a + total_size xs \<or> ?a + total_size xs + total_size [(b, x), (c, y)] \<le> u" for u
      using that at(1) c(1) hdr_ok_size_pos [OF at(3)] hdr_ok_size_pos [OF c(3)] by auto
  qed
  moreover have "pbits True (xs @ (b, x') # (c, y') # t)"
    using w(3) x'(3) y'(3,4) by (simp add: pbits_append)
  ultimately show ?thesis using w lt by (simp add: wf_heap_def)
qed

lemma wf_split:
  assumes wf: "wf_heap h (xs @ (b, x) # ys)" and free: "\<not> is_allocated x"
    and x1: "hdr_ok x1" "pred_allocated x1 = pred_allocated x" "is_allocated x1"
    and x2: "hdr_ok x2" "pred_allocated x2" "\<not> is_allocated x2"
    and sz: "blk_size x1 + blk_size x2 = blk_size x"
  shows "wf_heap (h\<lparr>mem := (mem h)(b + blk_size x1 := x2, b := x1)\<rparr>)
           (xs @ (b, x1) # (b + blk_size x1, x2) # ys)"
proof -
  let ?a = "heap_start h" and ?e = "heap_start h + alloc_size h"
  let ?c = "b + blk_size x1"
  let ?m = "(mem h)(?c := x2, b := x1)"
  note w = wf_heapD [OF wf]
  note at = chain_at [OF w(1)]
  from hdr_ok_size_pos [OF x1(1)] hdr_ok_size_pos [OF x2(1)] sz at(7)
  have lt: "b < ?c" "?c < b + blk_size x" "?c < ?e" "b < ?e" by simp_all
  have "chain ?m ?a (xs @ [(b, x1), (?c, x2)] @ ys) ?e"
  proof (rule chain_replace [where mid = "[(b, x)]" and m = "mem h"])
    show "chain (mem h) ?a (xs @ [(b, x)] @ ys) ?e" using w(1) by simp
    show "chain ?m (?a + total_size xs) [(b, x1), (?c, x2)]
        (?a + total_size xs + total_size [(b, x)])"
      using at(1) x1(1) x2(1) sz lt by simp
    show "?m u = mem h u"
      if "u < ?a + total_size xs \<or> ?a + total_size xs + total_size [(b, x)] \<le> u" for u
      using that at(1) lt by auto
  qed
  moreover have "pbits True (xs @ (b, x1) # (?c, x2) # ys)"
    using w(3) x1 x2 free by (simp add: pbits_append)
  ultimately show ?thesis using w lt by (simp add: wf_heap_def)
qed

lemma same_globals_simps [simp]:
  "same_globals h h" "same_globals h (h\<lparr>mem := m\<rparr>)"
  by (simp_all add: same_globals_def)

lemma balloc_exact_result:
  assumes wf: "wf_heap h (xs @ (b, x) # ys)" and free: "\<not> is_allocated x"
  shows "\<exists>h'. balloc_exact h b (blk_size x) = (b + 4, h') \<and>
           wf_heap h' (xs @ (b, x + 1) # set_pred ys) \<and> same_globals h h' \<and>
           (\<forall>u. u \<noteq> b \<and> u \<noteq> b + blk_size x \<longrightarrow> mem h' u = mem h u)"
proof -
  note w = wf_heapD [OF wf]
  note at = chain_at [OF w(1)]
  note a = hdr_set_a [OF at(3) free]
  from hdr_ok_size_pos [OF at(3)] have ne: "b + blk_size x \<noteq> b" by simp
  show ?thesis
  proof (cases ys)
    case Nil
    with at(4) w(2) have "mem h (b + blk_size x) = 1" by simp
    then have "balloc_exact h b (blk_size x) = (b + 4, h\<lparr>mem := (mem h)(b := x + 1)\<rparr>)"
      using ne at(2) by (simp add: balloc_exact_def Let_def)
    moreover have "wf_heap (h\<lparr>mem := (mem h)(b := x + 1)\<rparr>) (xs @ [(b, x + 1)])"
      using wf a unfolding Nil by (intro wf_update_last) simp_all
    ultimately show ?thesis using Nil by simp
  next
    case (Cons z t)
    obtain c y where z: "z = (c, y)" by (cases z)
    from at(4) Cons z have c: "c = b + blk_size x" "mem h c = y" "hdr_ok y" by simp_all
    from w(3) Cons z free have "\<not> pred_allocated y" by (simp add: pbits_append)
    note p = hdr_set_p [OF c(3) this]
    have "balloc_exact h b (blk_size x) = (b + 4, h\<lparr>mem := (mem h)(b := x + 1, c := y + 2)\<rparr>)"
      using ne at(2) c hdr_ok_not_end [OF c(3)] by (simp add: balloc_exact_def Let_def)
    moreover have "wf_heap (h\<lparr>mem := (mem h)(b := x + 1, c := y + 2)\<rparr>)
        (xs @ (b, x + 1) # (c, y + 2) # t)"
      using wf a p unfolding Cons z by (intro wf_update_mid) simp_all
    ultimately show ?thesis using Cons z c(1) by simp
  qed
qed

lemma padded_block_size_props:
  assumes "0 < n"
  shows "padded_block_size n mod 8 = 0" and "8 \<le> padded_block_size n"
    and "n + 4 \<le> padded_block_size n" and "padded_block_size n < n + 12"
proof -
  from assms have "c_rem (n + 4) 8 = (n + 4) mod 8" by (simp add: c_rem_nonneg)
  then have eq: "padded_block_size n =
      (if (n + 4) mod 8 \<noteq> 0 then n + 4 + (8 - (n + 4) mod 8) else n + 4)"
    by (simp add: padded_block_size_def Let_def)
  show "padded_block_size n mod 8 = 0" unfolding eq by presburger
  show "8 \<le> padded_block_size n" unfolding eq using assms by presburger
  show "n + 4 \<le> padded_block_size n" unfolding eq by presburger
  show "padded_block_size n < n + 12" unfolding eq by presburger
qed

lemma balloc_split_result:
  assumes wf: "wf_heap h (xs @ (b, x) # ys)" and free: "\<not> is_allocated x"
    and req: "8 \<le> req" "req mod 8 = 0" "req < blk_size x"
  shows "\<exists>h'. balloc_split h req (Some (b, blk_size x)) = (b + 4, h') \<and>
           wf_heap h' (xs @ (b, req + c_rem x 8 + 1) # (b + req, blk_size x - req + 2) # ys) \<and>
           same_globals h h' \<and>
           (\<forall>u. u \<noteq> b \<and> u \<noteq> b + req \<longrightarrow> mem h' u = mem h u)"
proof -
  note w = wf_heapD [OF wf]
  note at = chain_at [OF w(1)]
  note f = hdr_split_first [OF at(3) free req(1,2)]
  note g = hdr_split_second [OF at(3) req(3,2)]
  let ?x1 = "req + c_rem x 8 + 1" and ?x2 = "blk_size x - req + 2"
  from req(1) have ne: "b + req \<noteq> b" by simp
  have "balloc_split h req (Some (b, blk_size x)) =
      (b + 4, h\<lparr>mem := (mem h)(b + req := ?x2, b := ?x1)\<rparr>)"
    using ne at(2) by (simp add: balloc_split_def Let_def)
  moreover have "wf_heap (h\<lparr>mem := (mem h)(b + blk_size ?x1 := ?x2, b := ?x1)\<rparr>)
      (xs @ (b, ?x1) # (b + blk_size ?x1, ?x2) # ys)"
    using wf free f g by (intro wf_split) simp_all
  ultimately show ?thesis using f(2) by simp
qed

lemma best_scan_keep:
  "\<forall>(c, y) \<in> set bs. \<not> is_allocated y \<and> req \<le> blk_size y \<longrightarrow> s \<le> blk_size y \<Longrightarrow>
   best_scan req bs (Some (b, s)) = Some (b, s)"
proof (induction bs)
  case Nil
  then show ?case by simp
next
  case (Cons z bs)
  obtain c y where z: "z = (c, y)" by (cases z)
  from Cons.prems z have "\<not> (\<not> is_allocated y \<and> req \<le> blk_size y \<and> blk_size y < s)"
    by auto
  moreover from Cons have "best_scan req bs (Some (b, s)) = Some (b, s)" by simp
  ultimately show ?case unfolding z by auto
qed

lemma best_scan_pick:
  assumes "\<not> is_allocated x" and "req \<le> blk_size x"
    and "\<forall>(c, y) \<in> set xs. \<not> is_allocated y \<and> req \<le> blk_size y \<longrightarrow> blk_size x < blk_size y"
    and "\<forall>(c, y) \<in> set ys. \<not> is_allocated y \<and> req \<le> blk_size y \<longrightarrow> blk_size x \<le> blk_size y"
    and "case best of None \<Rightarrow> True | Some (best_fit, bf_size) \<Rightarrow> blk_size x < bf_size"
  shows "best_scan req (xs @ (b, x) # ys) best = Some (b, blk_size x)"
  using assms(3,5)
proof (induction xs arbitrary: best)
  case Nil
  with assms(1,2) best_scan_keep [OF assms(4)] show ?case by simp
next
  case (Cons z xs)
  obtain c y where z: "z = (c, y)" by (cases z)
  show ?case unfolding z append_Cons best_scan.simps
  proof (rule Cons.IH)
    show "\<forall>(c, y) \<in> set xs. \<not> is_allocated y \<and> req \<le> blk_size y \<longrightarrow> blk_size x < blk_size y"
      using Cons.prems(1) by simp
    show "case (if \<not> is_allocated y \<and> req \<le> blk_size y \<and>
                  (case best of None \<Rightarrow> True | Some (best_fit, bf_size) \<Rightarrow> blk_size y < bf_size)
               then Some (c, blk_size y) else best) of
            None \<Rightarrow> True | Some (best_fit, bf_size) \<Rightarrow> blk_size x < bf_size"
      using Cons.prems z by auto
  qed
qed

lemma best_scan_cases:
  "best_scan req bs best = best \<or>
   (\<exists>xs b x ys. bs = xs @ (b, x) # ys \<and> \<not> is_allocated x \<and> req \<le> blk_size x \<and>
      best_scan req bs best = Some (b, blk_size x))"
proof (induction bs arbitrary: best)
  case Nil
  then show ?case by simp
next
  case (Cons z bs)
  obtain c y where z: "z = (c, y)" by (cases z)
  let ?best = "if \<not> is_allocated y \<and> req \<le> blk_size y \<and>
                  (case best of None \<Rightarrow> True | Some (best_fit, bf_size) \<Rightarrow> blk_size y < bf_size)
               then Some (c, blk_size y) else best"
  have step: "best_scan req (z # bs) best = best_scan req bs ?best" by (simp add: z)
  from Cons.IH [of ?best] show ?case
  proof
    assume keep: "best_scan req bs ?best = ?best"
    show ?thesis
    proof (cases "?best = best")
      case True
      with keep step show ?thesis by simp
    next
      case False
      then have "?best = Some (c, blk_size y)" "\<not> is_allocated y" "req \<le> blk_size y"
        by (auto split: if_splits)
      with keep step z have "z # bs = [] @ (c, y) # bs \<and> \<not> is_allocated y \<and> req \<le> blk_size y \<and>
          best_scan req (z # bs) best = Some (c, blk_size y)" by simp
      then show ?thesis by blast
    qed
  next
    assume "\<exists>xs b x ys. bs = xs @ (b, x) # ys \<and> \<not> is_allocated x \<and> req \<le> blk_size x \<and>
      best_scan req bs ?best = Some (b, blk_size x)"
    then obtain xs b x ys where "bs = xs @ (b, x) # ys" "\<not> is_allocated x" "req \<le> blk_size x"
      "best_scan req bs ?best = Some (b, blk_size x)" by blast
    with step have "z # bs = (z # xs) @ (b, x) # ys \<and> \<not> is_allocated x \<and> req \<le> blk_size x \<and>
      best_scan req (z # bs) best = Some (b, blk_size x)" by simp
    then show ?thesis by blast
  qed
qed

lemma balloc_cases:
  assumes wf: "wf_heap h bs"
  shows "\<exists>p h'. balloc h n = Some (p, h') \<and>
           ((p = NULL \<and> h' = h) \<or>
            (\<exists>bs' b x. wf_heap h' bs' \<and> same_globals h h' \<and> (b, x) \<in> set bs \<and> p = b + 4))"
proof (cases "n \<le> 0 \<or> n > alloc_size h")
  case True
  then show ?thesis by (simp add: balloc_def)
next
  case False
  then have n: "0 < n" by simp
  note pb = padded_block_size_props [OF n]
  let ?req = "padded_block_size n"
  let ?P = "\<lambda>(c, y). \<not> is_allocated y \<and> blk_size y = ?req"
  note w = wf_heapD [OF wf]
  have bal: "balloc h n = balloc_scan h ?req (heap_start h) None"
    using False by (simp add: balloc_def)
  show ?thesis
  proof (cases "\<exists>z \<in> set bs. ?P z")
    case True
    from split_list_first_prop [OF this]
    obtain xs z ys where bs: "bs = xs @ z # ys" and z: "?P z" and xs: "\<forall>u \<in> set xs. \<not> ?P u"
      by blast
    obtain b x where zz: "z = (b, x)" by (cases z)
    from z zz have x: "\<not> is_allocated x" "blk_size x = ?req" by simp_all
    have "balloc_scan h ?req (heap_start h) None = Some (balloc_exact h b ?req)"
      by (rule scan_exact [OF _ _ x]) (use w(1) bs zz xs in auto)
    moreover from balloc_exact_result [OF wf [unfolded bs zz] x(1)] x(2)
    obtain h' where "balloc_exact h b ?req = (b + 4, h')"
      "wf_heap h' (xs @ (b, x + 1) # set_pred ys)" "same_globals h h'" by auto
    ultimately show ?thesis using bal bs zz by auto
  next
    case noexact: False
    have scan: "balloc_scan h ?req (heap_start h) None =
        Some (balloc_split h ?req (best_scan ?req bs None))"
      by (rule scan_no_exact [OF w(1,2)]) (use noexact in auto)
    from best_scan_cases [of ?req bs None] show ?thesis
    proof
      assume "best_scan ?req bs None = None"
      with scan bal show ?thesis by (simp add: balloc_split_def)
    next
      assume "\<exists>xs b x ys. bs = xs @ (b, x) # ys \<and> \<not> is_allocated x \<and> ?req \<le> blk_size x \<and>
        best_scan ?req bs None = Some (b, blk_size x)"
      then obtain xs b x ys where bs: "bs = xs @ (b, x) # ys" and x: "\<not> is_allocated x"
        "?req \<le> blk_size x" and best: "best_scan ?req bs None = Some (b, blk_size x)" by blast
      from noexact bs x have lt: "?req < blk_size x" by force
      from balloc_split_result [OF wf [unfolded bs] x(1) pb(2,1) lt]
      obtain h' where "balloc_split h ?req (Some (b, blk_size x)) = (b + 4, h')"
        "wf_heap h' (xs @ (b, ?req + c_rem x 8 + 1) # (b + ?req, blk_size x - ?req + 2) # ys)"
        "same_globals h h'" by auto
      with scan bal best bs show ?thesis by auto
    qed
  qed
qed

lemma total_size_mod: "chain m a bs e \<Longrightarrow> total_size bs mod 8 = 0"
proof (induction bs arbitrary: a)
  case Nil
  then show ?case by simp
next
  case (Cons z bs)
  obtain c y where z: "z = (c, y)" by (cases z)
  from Cons.prems z have "hdr_ok y" "chain m (a + blk_size y) bs e" by simp_all
  from hdr_ok_size_mod [OF this(1)] Cons.IH [OF this(2)] show ?case
    unfolding z by (simp add: mod_add_eq [symmetric, of "blk_size y"])
qed

lemma wf_block_facts:
  assumes wf: "wf_heap h (xs @ (b, x) # ys)"
  shows "b mod 8 = 4" and "heap_start h \<le> b" and "0 < b"
    and "b + blk_size x \<le> heap_start h + alloc_size h"
    and "mem h b = x" and "hdr_ok x" and "8 \<le> blk_size x"
proof -
  note w = wf_heapD [OF wf]
  note at = chain_at [OF w(1)]
  from total_size_mod [OF at(5)] have "total_size xs mod 8 = 0" .
  with w(4) at(1) show "b mod 8 = 4" by presburger
  from at(6) show "heap_start h \<le> b" .
  with w(5) show "0 < b" by simp
  from at(7) show "b + blk_size x \<le> heap_start h + alloc_size h" .
  from at(2) show "mem h b = x" .
  from at(3) show "hdr_ok x" .
  then show "8 \<le> blk_size x" by (rule hdr_ok_size_pos)
qed

lemma bfree_not_allocated:
  assumes wf: "wf_heap h (xs @ (b, x) # ys)" and free: "\<not> is_allocated x"
  shows "bfree h (b + 4) = (- 1, h)"
proof -
  note f = wf_block_facts [OF wf]
  from hdr_ok_free [OF f(6)] free have "c_rem x 8 = 0 \<or> c_rem x 8 = 2" by simp
  then show ?thesis using f(5) by (auto simp: bfree_def Let_def)
qed

lemma bfree_allocated:
  assumes wf: "wf_heap h (xs @ (b, x) # ys)" and alloc: "is_allocated x"
  shows "\<exists>h'. bfree h (b + 4) = (0, h') \<and>
           wf_heap h' (xs @ (b, x - 1) # clear_pred ys) \<and> same_globals h h' \<and>
           (\<forall>u. u \<noteq> b \<and> u \<noteq> b + blk_size x \<longrightarrow> mem h' u = mem h u)"
proof -
  note w = wf_heapD [OF wf]
  note at = chain_at [OF w(1)]
  note f = wf_block_facts [OF wf]
  note a = hdr_clear_a [OF f(6) alloc]
  from f(1,3) have ptr: "b + 4 \<noteq> NULL" "c_rem (b + 4) 8 = 0"
    by (simp_all add: NULL_def c_rem_nonneg) presburger
  from f(2,4,7) have bounds: "\<not> (b + 4 < heap_start h \<or> b + 4 > heap_start h + alloc_size h)"
    by simp
  from hdr_ok_free [OF f(6)] alloc have rem: "\<not> (c_rem x 8 = 0 \<or> c_rem x 8 = 2)" by simp
  have nx: "x - c_rem x 8 = blk_size x" by (simp add: blk_size_def)
  from f(7) have ne: "b + blk_size x \<noteq> b" by simp
  have eval: "bfree h (b + 4) =
      (0, h\<lparr>mem := (if mem h (b + blk_size x) \<noteq> 1
                      then (mem h)(b + blk_size x := mem h (b + blk_size x) - 2, b := x - 1)
                      else (mem h)(b := x - 1))\<rparr>)"
    using ptr bounds rem ne f(5) by (simp add: bfree_def Let_def nx)
  show ?thesis
  proof (cases ys)
    case Nil
    with at(4) w(2) have "mem h (b + blk_size x) = 1" by simp
    with eval have "bfree h (b + 4) = (0, h\<lparr>mem := (mem h)(b := x - 1)\<rparr>)" by simp
    moreover have "wf_heap (h\<lparr>mem := (mem h)(b := x - 1)\<rparr>) (xs @ [(b, x - 1)])"
      using wf a unfolding Nil by (intro wf_update_last) simp_all
    ultimately show ?thesis using Nil by simp
  next
    case (Cons z t)
    obtain c y where z: "z = (c, y)" by (cases z)
    from at(4) Cons z have c: "c = b + blk_size x" "mem h c = y" "hdr_ok y" by simp_all
    from w(3) Cons z alloc have "pred_allocated y" by (simp add: pbits_append)
    note p = hdr_clear_p [OF c(3) this]
    from eval c hdr_ok_not_end [OF c(3)] ne
    have "bfree h (b + 4) = (0, h\<lparr>mem := (mem h)(b := x - 1, c := y - 2)\<rparr>)"
      by (simp add: fun_upd_twist)
    moreover have "wf_heap (h\<lparr>mem := (mem h)(b := x - 1, c := y - 2)\<rparr>)
        (xs @ (b, x - 1) # (c, y - 2) # t)"
      using wf a p unfolding Cons z by (intro wf_update_mid) simp_all
    ultimately show ?thesis using Cons z c(1) by simp
  qed
qed

lemma wf_store:
  assumes wf: "wf_heap h (xs @ (b, x) # ys)" and a: "b < a" "a < b + blk_size x"
  shows "wf_heap (h\<lparr>mem := (mem h)(a := v)\<rparr>) (xs @ (b, x) # ys)"
proof -
  note w = wf_heapD [OF wf]
  note at = chain_at [OF w(1)]
  have "chain ((mem h)(a := v)) (heap_start h) (xs @ [(b, x)] @ ys) (heap_start h + alloc_size h)"
  proof (rule chain_replace [where mid = "[(b, x)]" and m = "mem h"])
    show "chain (mem h) (heap_start h) (xs @ [(b, x)] @ ys) (heap_start h + alloc_size h)"
      using w(1) by simp
    show "chain ((mem h)(a := v)) (heap_start h + total_size xs) [(b, x)]
        (heap_start h + total_size xs + total_size [(b, x)])"
      using at(1,2,3) a by simp
    show "((mem h)(a := v)) u = mem h u"
      if "u < heap_start h + total_size xs \<or>
          heap_start h + total_size xs + total_size [(b, x)] \<le> u" for u
      using that at(1) a by auto
  qed
  then show ?thesis using w at(7) a by (simp add: wf_heap_def)
qed

lemma hdr_grow:
  assumes "hdr_ok x" and "0 \<le> t" and "t mod 8 = 0"
  shows "hdr_ok (x + t)" and "blk_size (x + t) = blk_size x + t"
    and "is_allocated (x + t) = is_allocated x" and "pred_allocated (x + t) = pred_allocated x"
proof -
  note m = hdr_ok_mk [OF assms(1)]
  from m(2,3) assms(2,3) have d: "8 \<le> blk_size x + t" "(blk_size x + t) mod 8 = 0"
    by presburger+
  have "x + t = mk_hdr (blk_size x + t) (pred_allocated x) (is_allocated x)"
    by (subst m(1)) (simp add: mk_hdr_def)
  then show "hdr_ok (x + t)" and "blk_size (x + t) = blk_size x + t"
    and "is_allocated (x + t) = is_allocated x" and "pred_allocated (x + t) = pred_allocated x"
    using mk_hdr_props [OF d] by simp_all
qed

lemma hdr_both_clear:
  assumes "hdr_ok y" and "\<not> is_allocated y" and "\<not> pred_allocated y"
  shows "c_rem y 8 = 0" and "blk_size y = y"
proof -
  note m = hdr_ok_mk [OF assms(1)]
  show "c_rem y 8 = 0" by (subst m(1)) (simp add: mk_hdr_props [OF m(2,3)] assms(2,3))
  then show "blk_size y = y" by (simp add: blk_size_def)
qed

lemma hdr_allocated_rem:
  assumes "hdr_ok y" and "is_allocated y"
  shows "c_rem y 8 \<noteq> 0"
  using hdr_ok_free [OF assms(1)] assms(2) by auto

lemma coalesce_inner_run:
  assumes "chain m a (run @ rest) e" and "m e = 1"
    and "\<forall>z \<in> set run. c_rem (snd z) 8 = 0"
    and "rest = [] \<or> c_rem (snd (hd rest)) 8 \<noteq> 0"
  shows "coalesce_inner m a fr cnt = Some (fr + total_size run, if run = [] then cnt else 1)"
  using assms(1,3)
proof (induction run arbitrary: a fr cnt)
  case Nil
  have "\<not> (m a \<noteq> 1 \<and> c_rem (m a) 8 = 0)"
  proof (cases rest)
    case Nil
    with \<open>chain m a ([] @ rest) e\<close> assms(2) show ?thesis by simp
  next
    case (Cons z t)
    with \<open>chain m a ([] @ rest) e\<close> assms(4) show ?thesis by (cases z) auto
  qed
  then have "(m a \<noteq> 1 \<and> c_rem (m a) 8 = 0) = False" by simp
  then show ?case by (subst coalesce_inner.simps) (simp only: if_False, simp)
next
  case (Cons z run)
  obtain c y where z: "z = (c, y)" by (cases z)
  from Cons.prems z have c: "m a = y" "hdr_ok y" "c_rem y 8 = 0"
    "chain m (a + blk_size y) (run @ rest) e" "\<forall>z \<in> set run. c_rem (snd z) 8 = 0"
    by simp_all
  from c(3) have sy: "blk_size y = y" by (simp add: blk_size_def)
  have "coalesce_inner m a fr cnt = coalesce_inner m (a + y) (fr + y) 1"
    using c(1,3) hdr_ok_not_end [OF c(2)] by (subst coalesce_inner.simps) simp
  also have "\<dots> = Some (fr + y + total_size run, if run = [] then 1 else 1)"
    using c(4) by (intro Cons.IH c(5)) (simp add: sy)
  finally show ?case by (simp add: z sy)
qed

lemma coalesce_loop_end: "mem h a = 1 \<Longrightarrow> coalesce_loop h a cnt = Some (cnt, h)"
  by (subst coalesce_loop.simps) simp

lemma coalesce_loop_alloc:
  assumes "mem h a = x" and "hdr_ok x" and "is_allocated x"
  shows "coalesce_loop h a cnt = coalesce_loop h (a + blk_size x) cnt"
proof -
  have r: "\<not> (c_rem x 8 = 0 \<or> c_rem x 8 = 2)"
    using hdr_ok_free [OF assms(2)] assms(3) by simp
  have ne: "x \<noteq> 1" by (rule hdr_ok_not_end [OF assms(2)])
  have sz: "x - c_rem x 8 = blk_size x" by (simp add: blk_size_def)
  show ?thesis
    apply (subst coalesce_loop.simps)
    apply (simp only: assms(1) Let_def sz r ne)
    apply simp
    done
qed

lemma coalesce_loop_free:
  assumes "mem h a = x" and "hdr_ok x" and "\<not> is_allocated x"
    and "coalesce_inner (mem h) (a + blk_size x) (blk_size x) cnt = Some (fr, cnt')"
  shows "coalesce_loop h a cnt =
           coalesce_loop (h\<lparr>mem := (mem h)(a := fr + c_rem x 8)\<rparr>) (a + fr) cnt'"
proof -
  have r: "c_rem x 8 = 0 \<or> c_rem x 8 = 2"
    using hdr_ok_free [OF assms(2)] assms(3) by simp
  have ne: "x \<noteq> 1" by (rule hdr_ok_not_end [OF assms(2)])
  have sz: "x - c_rem x 8 = blk_size x" by (simp add: blk_size_def)
  show ?thesis
    apply (subst coalesce_loop.simps)
    apply (simp only: assms(1) Let_def sz r ne assms(4))
    apply simp
    done
qed

lemma run_clear:
  assumes "pbits False (run @ rest)" and "\<forall>z \<in> set run. is_free_block z"
    and "\<forall>z \<in> set run. hdr_ok (snd z)"
  shows "(\<forall>z \<in> set run. c_rem (snd z) 8 = 0) \<and> pbits False rest"
  using assms
proof (induction run)
  case Nil
  then show ?case by simp
next
  case (Cons z run)
  obtain c y where z: "z = (c, y)" by (cases z)
  from Cons.prems z have y: "\<not> pred_allocated y" "\<not> is_allocated y" "hdr_ok y"
    and rest: "pbits False (run @ rest)" "\<forall>z \<in> set run. is_free_block z"
      "\<forall>z \<in> set run. hdr_ok (snd z)"
    by (simp_all add: is_free_block_def)
  from hdr_both_clear(1) [OF y(3,2,1)] Cons.IH [OF rest] z show ?case by simp
qed

lemma adjacent_free_alloc: "is_allocated x \<Longrightarrow> adjacent_free ((b, x) # bs) = adjacent_free bs"
  by (cases bs) (simp_all add: is_free_block_def)

lemma adjacent_free_run:
  "\<not> is_allocated x \<Longrightarrow>
   adjacent_free ((b, x) # bs) \<longleftrightarrow>
     takeWhile is_free_block bs \<noteq> [] \<or> adjacent_free (dropWhile is_free_block bs)"
  by (cases bs) (simp_all add: is_free_block_def)

lemma chain_hdr_ok: "chain m a bs e \<Longrightarrow> z \<in> set bs \<Longrightarrow> hdr_ok (snd z)"
  by (cases z) (auto dest: chain_mem)

lemma chain_addr_range: "chain m a bs e \<Longrightarrow> z \<in> set bs \<Longrightarrow> a \<le> fst z \<and> fst z < e"
  by (cases z) (auto dest!: chain_mem hdr_ok_size_pos)

lemma chain_take_drop:
  assumes "chain m a bs e"
  shows "chain m a (takeWhile P bs) (a + total_size (takeWhile P bs))"
    and "chain m (a + total_size (takeWhile P bs)) (dropWhile P bs) e"
  using assms chain_append [of m a "takeWhile P bs" "dropWhile P bs" e] by simp_all

lemma coalesce_loop_merge:
  assumes "chain (mem h) a bs e" and "mem h e = 1" and "pbits p bs"
  shows "\<exists>h'. coalesce_loop h a cnt = Some (if adjacent_free bs then 1 else cnt, h') \<and>
           chain (mem h') a (merge_runs bs) e \<and> same_globals h h' \<and>
           (\<forall>u. (\<forall>z \<in> set bs. fst z = u \<longrightarrow> is_allocated (snd z)) \<longrightarrow> mem h' u = mem h u)"
  using assms
proof (induction bs arbitrary: h a cnt p rule: merge_runs.induct)
  case 1
  then show ?case by (simp add: coalesce_loop_end)
next
  case (2 b x bs)
  from "2.prems"(1) have c: "b = a" "mem h a = x" "hdr_ok x"
    "chain (mem h) (a + blk_size x) bs e" by simp_all
  from hdr_ok_size_pos [OF c(3)] chain_le [OF c(4)] have lt: "a < a + blk_size x" "a < e"
    by simp_all
  show ?case
  proof (cases "is_allocated x")
    case True
    from "2.prems"(3) have pb: "pbits (is_allocated x) bs" by simp
    from "2.IH"(1) [OF True c(4) "2.prems"(2) pb, of cnt]
    obtain h' where h': "coalesce_loop h (a + blk_size x) cnt =
        Some (if adjacent_free bs then 1 else cnt, h')"
      "chain (mem h') (a + blk_size x) (merge_runs bs) e" "same_globals h h'"
      "\<forall>u. (\<forall>z \<in> set bs. fst z = u \<longrightarrow> is_allocated (snd z)) \<longrightarrow> mem h' u = mem h u"
      by blast
    have "\<forall>z \<in> set bs. fst z \<noteq> a"
      using chain_addr_range [OF c(4)] lt by fastforce
    with h'(4) have "mem h' a = mem h a" by simp
    with h'(2) c have "chain (mem h') a (merge_runs ((b, x) # bs)) e"
      using True by simp
    moreover have "coalesce_loop h a cnt =
        Some (if adjacent_free ((b, x) # bs) then 1 else cnt, h')"
      using coalesce_loop_alloc [OF c(2,3) True] h'(1) adjacent_free_alloc [OF True] by simp
    moreover have "\<forall>u. (\<forall>z \<in> set ((b, x) # bs). fst z = u \<longrightarrow> is_allocated (snd z)) \<longrightarrow>
        mem h' u = mem h u"
      using h'(4) by simp
    ultimately show ?thesis using h'(3) by blast
  next
    case False
    let ?run = "takeWhile is_free_block bs" and ?rest = "dropWhile is_free_block bs"
    let ?fr = "blk_size x + total_size ?run"
    let ?cnt = "if ?run = [] then cnt else 1"
    let ?h1 = "h\<lparr>mem := (mem h)(a := ?fr + c_rem x 8)\<rparr>"
    have bs: "bs = ?run @ ?rest" by simp
    from "2.prems"(3) False have pb: "pbits False (?run @ ?rest)" by simp
    have runfree: "\<forall>z \<in> set ?run. is_free_block z" by (auto dest: set_takeWhileD)
    have runok: "\<forall>z \<in> set ?run. hdr_ok (snd z)"
      using chain_hdr_ok [OF c(4)] by (auto dest: set_takeWhileD)
    from run_clear [OF pb runfree runok]
    have clear: "\<forall>z \<in> set ?run. c_rem (snd z) 8 = 0" and pbrest: "pbits False ?rest"
      by simp_all
    have stop: "?rest = [] \<or> c_rem (snd (hd ?rest)) 8 \<noteq> 0"
    proof (cases "?rest = []")
      case True
      then show ?thesis by simp
    next
      case ne: False
      then have "\<not> is_free_block (hd ?rest)" by (rule hd_dropWhile)
      moreover from ne have "hd ?rest \<in> set bs"
        by (metis hd_in_set set_dropWhileD)
      ultimately show ?thesis
        using hdr_allocated_rem [OF chain_hdr_ok [OF c(4)]] by (simp add: is_free_block_def)
    qed
    from c(4) have c4: "chain (mem h) (a + blk_size x) (?run @ ?rest) e" by simp
    note inner = coalesce_inner_run [OF c4 "2.prems"(2) clear stop, of "blk_size x" cnt]
    note step = coalesce_loop_free [OF c(2,3) False inner]
    from chain_take_drop [OF c(4), of is_free_block]
    have rest: "chain (mem h) (a + ?fr) ?rest e"
      and run: "chain (mem h) (a + blk_size x) ?run (a + ?fr)"
      by (simp_all add: algebra_simps)
    from chain_le [OF run] lt have lt2: "a < a + ?fr" by simp
    have rest1: "chain (mem ?h1) (a + ?fr) ?rest e"
      using chain_frame_below [OF rest lt2] by simp
    have end1: "mem ?h1 e = 1" using "2.prems"(2) lt by simp
    from "2.IH"(2) [OF False rest1 end1, of False ?cnt] pbrest
    obtain h' where h': "coalesce_loop ?h1 (a + ?fr) ?cnt =
        Some (if adjacent_free ?rest then 1 else ?cnt, h')"
      "chain (mem h') (a + ?fr) (merge_runs ?rest) e" "same_globals ?h1 h'"
      "\<forall>u. (\<forall>z \<in> set ?rest. fst z = u \<longrightarrow> is_allocated (snd z)) \<longrightarrow> mem h' u = mem ?h1 u"
      by auto
    have t: "0 \<le> total_size ?run" "total_size ?run mod 8 = 0"
      using total_size_nonneg [OF run] total_size_mod [OF run] by simp_all
    note g = hdr_grow [OF c(3) t]
    have val: "?fr + c_rem x 8 = x + total_size ?run" by (simp add: blk_size_def)
    have "\<forall>z \<in> set ?rest. fst z \<noteq> a"
      using chain_addr_range [OF rest] lt2 by fastforce
    with h'(4) have "mem h' a = x + total_size ?run" by (simp add: val)
    with h'(2) g(1,2) c(1) have "chain (mem h') a (merge_runs ((b, x) # bs)) e"
      using False by (simp add: algebra_simps)
    moreover have "coalesce_loop h a cnt =
        Some (if adjacent_free ((b, x) # bs) then 1 else cnt, h')"
      using step h'(1) adjacent_free_run [OF False, of b bs] by auto
    moreover have "mem h' u = mem h u"
      if u: "\<forall>z \<in> set ((b, x) # bs). fst z = u \<longrightarrow> is_allocated (snd z)" for u
    proof -
      from u False c(1) have ua: "u \<noteq> a" by auto
      from u have "\<forall>z \<in> set ?rest. fst z = u \<longrightarrow> is_allocated (snd z)"
        by (auto dest: set_dropWhileD)
      with h'(4) ua show ?thesis by simp
    qed
    moreover have "same_globals h h'" using h'(3) by (simp add: same_globals_def)
    ultimately show ?thesis by blast
  qed
qed

lemma pbits_merge_runs:
  assumes "chain m a bs e" and "pbits p bs"
  shows "pbits p (merge_runs bs)"
  using assms
proof (induction bs arbitrary: a p rule: merge_runs.induct)
  case 1
  then show ?case by simp
next
  case (2 b x bs)
  from "2.prems"(1) have c: "hdr_ok x" "chain m (a + blk_size x) bs e" by simp_all
  from "2.prems"(2) have p: "pred_allocated x = p" "pbits (is_allocated x) bs" by simp_all
  show ?case
  proof (cases "is_allocated x")
    case True
    with "2.IH"(1) [OF True c(2) p(2)] p(1) show ?thesis by simp
  next
    case False
    let ?run = "takeWhile is_free_block bs" and ?rest = "dropWhile is_free_block bs"
    note td = chain_take_drop [OF c(2), of is_free_block]
    from p(2) False have "pbits False (?run @ ?rest)" by simp
    moreover have "\<forall>z \<in> set ?run. is_free_block z" by (auto dest: set_takeWhileD)
    moreover have "\<forall>z \<in> set ?run. hdr_ok (snd z)"
      using chain_hdr_ok [OF c(2)] by (auto dest: set_takeWhileD)
    ultimately have "pbits False ?rest" using run_clear by blast
    from "2.IH"(2) [OF False td(2) this] have "pbits False (merge_runs ?rest)" .
    moreover note g = hdr_grow [OF c(1) total_size_nonneg [OF td(1)] total_size_mod [OF td(1)]]
    ultimately show ?thesis using False p(1) g(3,4) by simp
  qed
qed

lemma not_adjacent_free_merge_runs: "\<not> adjacent_free (merge_runs bs)"
proof (induction bs rule: merge_runs.induct)
  case 1
  then show ?case by simp
next
  case (2 b x bs)
  show ?case
  proof (cases "is_allocated x")
    case True
    with "2.IH"(1) show ?thesis by (simp add: adjacent_free_alloc)
  next
    case False
    let ?rest = "dropWhile is_free_block bs"
    show ?thesis
    proof (cases ?rest)
      case Nil
      from False show ?thesis unfolding merge_runs.simps Nil by simp
    next
      case (Cons z r)
      obtain c y where z: "z = (c, y)" by (cases z)
      have "\<not> is_free_block (hd ?rest)" by (rule hd_dropWhile) (simp add: Cons)
      with Cons z have y: "is_allocated y" by (simp add: is_free_block_def)
      with "2.IH"(2) [OF False] Cons z have "\<not> adjacent_free ((c, y) # merge_runs r)" by simp
      with False Cons z y show ?thesis by (simp add: is_free_block_def)
    qed
  qed
qed

lemma merge_runs_id: "\<not> adjacent_free bs \<Longrightarrow> merge_runs bs = bs"
proof (induction bs rule: merge_runs.induct)
  case 1
  then show ?case by simp
next
  case (2 b x bs)
  show ?case
  proof (cases "is_allocated x")
    case True
    with 2 show ?thesis by (simp add: adjacent_free_alloc)
  next
    case False
    with "2.prems" adjacent_free_run [OF False, of b bs]
    have tw: "takeWhile is_free_block bs = []" and na: "\<not> adjacent_free (dropWhile is_free_block bs)"
      by simp_all
    from tw have dw: "dropWhile is_free_block bs = bs"
      by (metis append_Nil takeWhile_dropWhile_id)
    from "2.IH"(2) [OF False na] False tw dw show ?thesis by simp
  qed
qed

lemma coalesce_loop_noop:
  assumes "chain (mem h) a bs e" and "mem h e = 1" and "\<not> adjacent_free bs"
  shows "coalesce_loop h a cnt = Some (cnt, h)"
  using assms(1,3)
proof (induction bs arbitrary: a)
  case Nil
  with assms(2) show ?case by (simp add: coalesce_loop_end)
next
  case (Cons z bs)
  obtain b x where z: "z = (b, x)" by (cases z)
  from Cons.prems(1) z have c: "mem h a = x" "hdr_ok x" "chain (mem h) (a + blk_size x) bs e"
    by simp_all
  show ?case
  proof (cases "is_allocated x")
    case True
    with Cons.prems(2) z have "\<not> adjacent_free bs" by (simp add: adjacent_free_alloc)
    from Cons.IH [OF c(3) this] coalesce_loop_alloc [OF c(1,2) True] show ?thesis by simp
  next
    case False
    with Cons.prems(2) z adjacent_free_run [OF False, of b bs]
    have tw: "takeWhile is_free_block bs = []" and na: "\<not> adjacent_free (dropWhile is_free_block bs)"
      by simp_all
    from tw have dw: "dropWhile is_free_block bs = bs"
      by (metis append_Nil takeWhile_dropWhile_id)
    have stop: "bs = [] \<or> c_rem (snd (hd bs)) 8 \<noteq> 0"
    proof (cases bs)
      case Nil
      then show ?thesis by simp
    next
      case (Cons z' r)
      with tw have "\<not> is_free_block z'" by (auto split: if_splits)
      moreover have "hdr_ok (snd z')" using chain_hdr_ok [OF c(3)] Cons by simp
      ultimately show ?thesis using hdr_allocated_rem Cons by (simp add: is_free_block_def)
    qed
    from c(3) have c3: "chain (mem h) (a + blk_size x) ([] @ bs) e" by simp
    have inner: "coalesce_inner (mem h) (a + blk_size x) (blk_size x) cnt = Some (blk_size x, cnt)"
      using coalesce_inner_run [OF c3 assms(2) _ stop, of "blk_size x" cnt] by simp
    have "(mem h)(a := blk_size x + c_rem x 8) = mem h"
      using c(1) by (simp add: blk_size_def fun_upd_idem)
    then have "h\<lparr>mem := (mem h)(a := blk_size x + c_rem x 8)\<rparr> = h" by simp
    with coalesce_loop_free [OF c(1,2) False inner] na dw Cons.IH [OF c(3)] show ?thesis by simp
  qed
qed

lemma coalesce_wf:
  assumes wf: "wf_heap h bs"
  shows "\<exists>h'. coalesce h = Some (if adjacent_free bs then 1 else 0, h') \<and>
           wf_heap h' (merge_runs bs) \<and> same_globals h h' \<and>
           (\<forall>u. (\<forall>z \<in> set bs. fst z = u \<longrightarrow> is_allocated (snd z)) \<longrightarrow> mem h' u = mem h u)"
proof -
  note w = wf_heapD [OF wf]
  from coalesce_loop_merge [OF w(1,2,3), of 0]
  obtain h' where h': "coalesce_loop h (heap_start h) 0 = Some (if adjacent_free bs then 1 else 0, h')"
    "chain (mem h') (heap_start h) (merge_runs bs) (heap_start h + alloc_size h)"
    "same_globals h h'"
    "\<forall>u. (\<forall>z \<in> set bs. fst z = u \<longrightarrow> is_allocated (snd z)) \<longrightarrow> mem h' u = mem h u"
    by blast
  have "\<forall>z \<in> set bs. fst z \<noteq> heap_start h + alloc_size h"
    using chain_addr_range [OF w(1)] by fastforce
  with h'(4) w(2) have "mem h' (heap_start h + alloc_size h) = 1" by simp
  moreover have "pbits True (merge_runs bs)" by (rule pbits_merge_runs [OF w(1,3)])
  ultimately have "wf_heap h' (merge_runs bs)"
    using h'(2,3) w(4,5,6) by (simp add: wf_heap_def same_globals_def)
  with h' show ?thesis by (auto simp: coalesce_def)
qed

lemma coalesce_noop:
  assumes wf: "wf_heap h bs" and "\<not> adjacent_free bs"
  shows "coalesce h = Some (0, h)"
  unfolding coalesce_def
  by (rule coalesce_loop_noop [OF wf_heapD(1,2) [OF wf] assms(2)])

lemma c_rem_pos: "0 \<le> a \<Longrightarrow> 0 < b \<Longrightarrow> c_rem a b = a mod b"
  by (cases "a = 0") (simp_all add: c_rem_def)

lemma round_up_page:
  fixes n P :: int
  assumes "0 < n" and "0 < P"
  shows "P dvd n + (P - n mod P) mod P" and "P \<le> n + (P - n mod P) mod P"
proof -
  define q r where "q = n div P" and "r = n mod P"
  have nr: "n = P * q + r" by (simp add: q_def r_def)
  let ?t = "n + (P - r) mod P"
  have "?t mod P = (n + (P - r)) mod P" by (rule mod_add_right_eq)
  also have "n + (P - r) = P * (q + 1)" unfolding nr by (simp add: algebra_simps)
  finally have "?t mod P = 0" by simp
  then show d: "P dvd n + (P - n mod P) mod P" unfolding r_def by (simp add: mod_eq_0_iff_dvd)
  have "0 \<le> (P - n mod P) mod P" using assms(2) by (rule pos_mod_sign)
  with assms(1) have "0 < n + (P - n mod P) mod P" by linarith
  with d show "P \<le> n + (P - n mod P) mod P" by (rule zdvd_imp_le)
qed

lemma round_down_8:
  fixes T :: int
  assumes "8 dvd T" and "8 < T"
  shows "8 \<le> T - 8" and "(T - 8) mod 8 = 0"
  using assms by presburger+

lemma aligned_plus_4: "8 dvd (p::int) \<Longrightarrow> (p + 4) mod 8 = 4"
  by presburger

lemma init_heap_success:
  assumes env: "env_ok e" and init: "init_heap e h0 n = (0, h)"
  shows "wf_heap h [(heap_start h, alloc_size h + 2)]"
    and "heap_start h = mmap_ptr e + 4"
    and "allocated_once h = 1"
proof -
  let ?P = "getpagesize e"
  let ?t = "n + (?P - n mod ?P) mod ?P"
  from env have P: "8 < ?P" "?P mod 8 = 0" "0 < ?P" and mp: "0 < mmap_ptr e"
    "mmap_ptr e mod ?P = 0" by (simp_all add: env_ok_def)
  from init have n: "0 < n" and a0: "allocated_once h0 = 0"
    by (auto simp: init_heap_def split: if_splits)
  from n P(3) have pad1: "c_rem n ?P = n mod ?P" by (intro c_rem_pos) simp_all
  from pos_mod_bound [OF P(3), of n] have "0 \<le> ?P - n mod ?P" by simp
  then have pad2: "c_rem (?P - n mod ?P) ?P = (?P - n mod ?P) mod ?P"
    using P(3) by (rule c_rem_pos)
  note r = round_up_page [OF n P(3)]
  from P(2) have "8 dvd ?P" by (simp add: mod_eq_0_iff_dvd)
  from this r(1) have "8 dvd ?t" by (rule dvd_trans)
  moreover from r(2) P(1) have "8 < ?t" by simp
  ultimately have t: "8 \<le> ?t - 8" "(?t - 8) mod 8 = 0"
    by (rule round_down_8)+
  from mp(2) \<open>8 dvd ?P\<close> have "8 dvd mmap_ptr e"
    by (meson dvd_trans mod_eq_0_iff_dvd)
  then have al: "(mmap_ptr e + 4) mod 8 = 4" by (rule aligned_plus_4)
  let ?hs = "mmap_ptr e + 4"
  let ?m0 = "mmap_zeroed (mem h0) (mmap_ptr e) ?t"
  let ?m = "?m0(?hs + (?t - 8) := 1, ?hs := ?t - 8, ?hs := ?t - 8 + 2, ?hs + (?t - 8) - 4 := ?t - 8)"
  have h: "h = h0\<lparr>alloc_size := ?t - 8, allocated_once := 1, heap_start := ?hs, mem := ?m\<rparr>"
    using init t(1) unfolding init_heap_def Let_def pad1 pad2
    by (auto split: if_splits)
  from h show "heap_start h = mmap_ptr e + 4" and "allocated_once h = 1" by simp_all
  have hd: "?t - 8 + 2 = mk_hdr (?t - 8) True False" by (simp add: mk_hdr_def)
  note mk = mk_hdr_props [OF t, of True False, folded hd]
  have "?m ?hs = ?t - 8 + 2" "?m (?hs + (?t - 8)) = 1" using t(1) by simp_all
  with mk al mp(1) t(1) show "wf_heap h [(heap_start h, alloc_size h + 2)]"
    unfolding h wf_heap_def by simp
qed

theorem reachable_wf: "reachable h \<Longrightarrow> \<exists>bs. wf_heap h bs"
proof (induction rule: reachable.induct)
  case (reach_init e h0 sizeOfRegion h)
  from init_heap_success(1) [OF reach_init(1,2)] show ?case ..
next
  case (reach_balloc h size' p h')
  then obtain bs where wf: "wf_heap h bs" by blast
  from balloc_cases [OF wf, of size'] reach_balloc(2) wf show ?case by auto
next
  case (reach_bfree h bs b x r h')
  then obtain bs0 where wf: "wf_heap h bs0" by blast
  with reach_bfree(2) have "bs0 = bs" by (simp add: wf_heap_blocks)
  with reach_bfree(3) obtain xs ys where bs: "bs0 = xs @ (b, x) # ys"
    by (auto dest: split_list)
  show ?case
  proof (cases "is_allocated x")
    case True
    from bfree_allocated [OF wf [unfolded bs] True] reach_bfree(4) show ?thesis by auto
  next
    case False
    from bfree_not_allocated [OF wf [unfolded bs] False] reach_bfree(4) wf show ?thesis
      by auto
  qed
next
  case (reach_coalesce h c h')
  then obtain bs where "wf_heap h bs" by blast
  from coalesce_wf [OF this] reach_coalesce(2) show ?case by auto
next
  case (reach_store h bs b x a v)
  then obtain bs0 where wf: "wf_heap h bs0" by blast
  with reach_store(2) have "bs0 = bs" by (simp add: wf_heap_blocks)
  with reach_store(3) obtain xs ys where bs: "bs0 = xs @ (b, x) # ys"
    by (auto dest: split_list)
  from reach_store(5) have "b < a" by simp
  from wf_store [OF wf [unfolded bs] this reach_store(6)] show ?case ..
qed

lemma example_init: "init_heap example_env (start_heap (\<lambda>a. 0)) 4096 = (0, example_heap)"
  by (simp add: example_heap_def init_heap_def example_env_def start_heap_def Let_def
      c_rem_def MAP_FAILED_def)

lemma example_heap_fields:
  "heap_start example_heap = 65540" "alloc_size example_heap = 4088"
  by (simp_all add: example_heap_def init_heap_def example_env_def start_heap_def Let_def
      c_rem_def MAP_FAILED_def)

lemma example_env_ok: "env_ok example_env"
  by (simp add: env_ok_def example_env_def)

lemma example_heap_reachable: "reachable example_heap"
  by (rule reach_init [OF example_env_ok example_init]) (simp add: example_heap_fields)

lemma example_heap_wf: "wf_heap example_heap [(65540, 4090)]"
  using init_heap_success(1) [OF example_env_ok example_init]
  by (simp add: example_heap_fields)

lemma pbits_nth:
  "pbits p bs \<longleftrightarrow>
     (bs \<noteq> [] \<longrightarrow> pred_allocated (snd (hd bs)) = p) \<and>
     (\<forall>i. Suc i < length bs \<longrightarrow>
        pred_allocated (snd (bs ! Suc i)) = is_allocated (snd (bs ! i)))"
proof (induction bs arbitrary: p)
  case Nil
  then show ?case by simp
next
  case (Cons z bs)
  obtain b x where z: "z = (b, x)" by (cases z)
  have "(\<forall>i. Suc i < length (z # bs) \<longrightarrow>
          pred_allocated (snd ((z # bs) ! Suc i)) = is_allocated (snd ((z # bs) ! i))) \<longleftrightarrow>
        (bs \<noteq> [] \<longrightarrow> pred_allocated (snd (hd bs)) = is_allocated x) \<and>
        (\<forall>i. Suc i < length bs \<longrightarrow>
          pred_allocated (snd (bs ! Suc i)) = is_allocated (snd (bs ! i)))"
    (is "?L \<longleftrightarrow> ?R")
  proof
    assume L: ?L
    show ?R
    proof (intro conjI impI allI)
      assume "bs \<noteq> []"
      with L [rule_format, of 0] show "pred_allocated (snd (hd bs)) = is_allocated x"
        by (simp add: z hd_conv_nth)
    next
      fix i assume "Suc i < length bs"
      with L [rule_format, of "Suc i"]
      show "pred_allocated (snd (bs ! Suc i)) = is_allocated (snd (bs ! i))" by simp
    qed
  next
    assume R: ?R
    show ?L
    proof (intro allI impI)
      fix i assume i: "Suc i < length (z # bs)"
      show "pred_allocated (snd ((z # bs) ! Suc i)) = is_allocated (snd ((z # bs) ! i))"
      proof (cases i)
        case 0
        with i R show ?thesis by (auto simp: z hd_conv_nth)
      next
        case (Suc j)
        with i R show ?thesis by simp
      qed
    qed
  qed
  with Cons.IH [of "is_allocated x"] show ?case by (simp add: z)
qed

lemma wf_heap_size:
  assumes wf: "wf_heap h bs"
  shows "bs \<noteq> []" and "total_size bs = alloc_size h" and "8 \<le> alloc_size h"
    and "alloc_size h mod 8 = 0"
proof -
  note w = wf_heapD [OF wf]
  from chain_end [OF w(1)] show t: "total_size bs = alloc_size h" by simp
  with w(6) show ne: "bs \<noteq> []" by auto
  from total_size_mod [OF w(1)] t show m: "alloc_size h mod 8 = 0" by simp
  with w(6) show "8 \<le> alloc_size h" by presburger
qed

lemma wf_blk_le:
  assumes wf: "wf_heap h bs" and "(b, x) \<in> set bs"
  shows "blk_size x \<le> alloc_size h"
  using chain_mem [OF wf_heapD(1) [OF wf] assms(2)] by simp

lemma best_scan_none:
  assumes "\<forall>(c, y) \<in> set bs. \<not> (\<not> is_allocated y \<and> req \<le> blk_size y)"
  shows "best_scan req bs best = best"
  using best_scan_cases [of req bs best] assms by fastforce

lemma balloc_too_big:
  assumes wf: "wf_heap h bs" and n: "0 < n" "n \<le> alloc_size h"
    and big: "alloc_size h < padded_block_size n"
  shows "balloc h n = Some (NULL, h)"
proof -
  let ?req = "padded_block_size n"
  note w = wf_heapD [OF wf]
  have small: "blk_size y < ?req" if "(c, y) \<in> set bs" for c y
    using wf_blk_le [OF wf that] big by simp
  have "balloc h n = balloc_scan h ?req (heap_start h) None"
    using n by (simp add: balloc_def)
  also have "\<dots> = Some (balloc_split h ?req (best_scan ?req bs None))"
    by (rule scan_no_exact [OF w(1,2)]) (use small in fastforce)
  also have "best_scan ?req bs None = None"
    by (rule best_scan_none) (use small in fastforce)
  finally show ?thesis by (simp add: balloc_split_def)
qed

lemma reachable_same_globals_balloc:
  assumes wf: "wf_heap h bs" and "balloc h n = Some (p, h')"
  shows "same_globals h h'"
  using balloc_cases [OF wf, of n] assms(2) by auto

lemmas hdr_eval = is_allocated_odd pred_allocated_odd blk_size_def c_rem_def hdr_ok_def

lemma padded_at_capacity:
  assumes "8 \<le> A" and "A mod 8 = 0"
  shows "padded_block_size (A - 4) = A"
proof -
  from assms(1) have "0 < A - 4" by simp
  from padded_block_size_props [OF this] assms(2) show ?thesis by presburger
qed

lemma balloc_whole_heap:
  assumes env: "env_ok e" and init: "init_heap e h0 n = (0, h)"
  shows "\<exists>h'. balloc h (alloc_size h - 4) = Some (heap_start h + 4, h')"
proof -
  let ?A = "alloc_size h" and ?b = "heap_start h"
  note wf = init_heap_success(1) [OF env init]
  note w = wf_heapD [OF wf]
  note sz = wf_heap_size(3,4) [OF wf]
  have hd: "?A + 2 = mk_hdr ?A True False" by (simp add: mk_hdr_def)
  note mk = mk_hdr_props [OF sz, of True False, folded hd]
  from padded_at_capacity [OF sz] have req: "padded_block_size (?A - 4) = blk_size (?A + 2)"
    using mk(2) by simp
  from sz(1) have "balloc h (?A - 4) = balloc_scan h (blk_size (?A + 2)) ?b None"
    by (simp add: balloc_def req)
  also have "\<dots> = Some (balloc_exact h ?b (blk_size (?A + 2)))"
    by (rule scan_exact [of h ?b "[]" ?b "?A + 2" "[]"]) (use w(1) mk in simp_all)
  finally show ?thesis
    using balloc_exact_result [of h "[]" ?b "?A + 2" "[]"] wf mk(4) by auto
qed

lemma wf_heap_mem:
  assumes "wf_heap h bs" and "(b, x) \<in> set bs"
  shows "mem h b = x"
  using chain_mem [OF wf_heapD(1) [OF assms(1)] assms(2)] by simp

lemma balloc_exact_wf:
  assumes wf: "wf_heap h (xs @ (b, x) # ys)" and n: "0 < n" "n \<le> alloc_size h"
    and x: "\<not> is_allocated x" "blk_size x = padded_block_size n"
    and first: "\<forall>(c, y) \<in> set xs. \<not> (\<not> is_allocated y \<and> blk_size y = padded_block_size n)"
  shows "\<exists>h'. balloc h n = Some (b + 4, h') \<and>
           wf_heap h' (xs @ (b, x + 1) # set_pred ys) \<and> same_globals h h' \<and>
           (\<forall>u. u \<noteq> b \<and> u \<noteq> b + padded_block_size n \<longrightarrow> mem h' u = mem h u)"
proof -
  let ?req = "padded_block_size n"
  have "balloc h n = balloc_scan h ?req (heap_start h) None"
    using n by (simp add: balloc_def)
  also have "\<dots> = Some (balloc_exact h b ?req)"
    by (rule scan_exact [OF wf_heapD(1) [OF wf] first x])
  finally show ?thesis using balloc_exact_result [OF wf x(1)] x(2) by auto
qed

lemma balloc_split_wf:
  assumes wf: "wf_heap h (xs @ (b, x) # ys)" and n: "0 < n" "n \<le> alloc_size h"
    and noexact: "\<forall>(c, y) \<in> set (xs @ (b, x) # ys).
        \<not> (\<not> is_allocated y \<and> blk_size y = padded_block_size n)"
    and x: "\<not> is_allocated x" "padded_block_size n \<le> blk_size x"
    and before: "\<forall>(c, y) \<in> set xs.
        \<not> is_allocated y \<and> padded_block_size n \<le> blk_size y \<longrightarrow> blk_size x < blk_size y"
    and after: "\<forall>(c, y) \<in> set ys.
        \<not> is_allocated y \<and> padded_block_size n \<le> blk_size y \<longrightarrow> blk_size x \<le> blk_size y"
  shows "\<exists>h'. balloc h n = Some (b + 4, h') \<and>
           wf_heap h' (xs @ (b, padded_block_size n + c_rem x 8 + 1) #
                        (b + padded_block_size n, blk_size x - padded_block_size n + 2) # ys) \<and>
           same_globals h h' \<and>
           (\<forall>u. u \<noteq> b \<and> u \<noteq> b + padded_block_size n \<longrightarrow> mem h' u = mem h u)"
proof -
  let ?req = "padded_block_size n"
  note w = wf_heapD [OF wf]
  note pb = padded_block_size_props [OF n(1)]
  from noexact x have lt: "?req < blk_size x" by force
  have "balloc h n = balloc_scan h ?req (heap_start h) None"
    using n by (simp add: balloc_def)
  also have "\<dots> = Some (balloc_split h ?req (best_scan ?req (xs @ (b, x) # ys) None))"
    by (rule scan_no_exact [OF w(1,2) noexact])
  also have "best_scan ?req (xs @ (b, x) # ys) None = Some (b, blk_size x)"
    by (rule best_scan_pick [OF x before after]) simp
  finally show ?thesis using balloc_split_result [OF wf x(1) pb(2,1) lt] by auto
qed

lemma balloc_none_wf:
  assumes wf: "wf_heap h bs" and n: "0 < n" "n \<le> alloc_size h"
    and nofit: "\<forall>(c, y) \<in> set bs. \<not> (\<not> is_allocated y \<and> padded_block_size n \<le> blk_size y)"
  shows "balloc h n = Some (NULL, h)"
proof -
  let ?req = "padded_block_size n"
  note w = wf_heapD [OF wf]
  have "balloc h n = balloc_scan h ?req (heap_start h) None"
    using n by (simp add: balloc_def)
  also have "\<dots> = Some (balloc_split h ?req (best_scan ?req bs None))"
    by (rule scan_no_exact [OF w(1,2)]) (use nofit in fastforce)
  also have "best_scan ?req bs None = None" by (rule best_scan_none [OF nofit])
  finally show ?thesis by (simp add: balloc_split_def)
qed

lemma balloc_split_wf_fun:
  assumes wf: "wf_heap h (xs @ (b, x) # ys)" and n: "0 < n" "n \<le> alloc_size h"
    and noexact: "\<forall>(c, y) \<in> set (xs @ (b, x) # ys).
        \<not> (\<not> is_allocated y \<and> blk_size y = padded_block_size n)"
    and x: "\<not> is_allocated x" "padded_block_size n \<le> blk_size x"
    and before: "\<forall>(c, y) \<in> set xs.
        \<not> is_allocated y \<and> padded_block_size n \<le> blk_size y \<longrightarrow> blk_size x < blk_size y"
    and after: "\<forall>(c, y) \<in> set ys.
        \<not> is_allocated y \<and> padded_block_size n \<le> blk_size y \<longrightarrow> blk_size x \<le> blk_size y"
  shows "balloc h n = Some (b + 4, snd (the (balloc h n)))"
    and "wf_heap (snd (the (balloc h n)))
           (xs @ (b, padded_block_size n + c_rem x 8 + 1) #
                 (b + padded_block_size n, blk_size x - padded_block_size n + 2) # ys)"
    and "same_globals h (snd (the (balloc h n)))"
  using balloc_split_wf [OF assms] by auto

lemma balloc_exact_wf_fun:
  assumes wf: "wf_heap h (xs @ (b, x) # ys)" and n: "0 < n" "n \<le> alloc_size h"
    and x: "\<not> is_allocated x" "blk_size x = padded_block_size n"
    and first: "\<forall>(c, y) \<in> set xs. \<not> (\<not> is_allocated y \<and> blk_size y = padded_block_size n)"
  shows "balloc h n = Some (b + 4, snd (the (balloc h n)))"
    and "wf_heap (snd (the (balloc h n))) (xs @ (b, x + 1) # set_pred ys)"
    and "same_globals h (snd (the (balloc h n)))"
  using balloc_exact_wf [OF assms] by auto

lemma bfree_allocated_fun:
  assumes wf: "wf_heap h (xs @ (b, x) # ys)" and alloc: "is_allocated x"
  shows "bfree h (b + 4) = (0, snd (bfree h (b + 4)))"
    and "wf_heap (snd (bfree h (b + 4))) (xs @ (b, x - 1) # clear_pred ys)"
    and "same_globals h (snd (bfree h (b + 4)))"
  using bfree_allocated [OF assms] by auto

lemma reachable_bfree_wf:
  assumes "reachable h" and "wf_heap h (xs @ (b, x) # ys)"
  shows "reachable (snd (bfree h (b + 4)))"
  by (rule reach_bfree [OF assms(1) wf_heap_blocks [OF assms(2)], of b x "fst (bfree h (b + 4))"])
    simp_all

lemma reachable_balloc_fun:
  assumes "reachable h" and "balloc h n = Some (p, snd (the (balloc h n)))"
  shows "reachable (snd (the (balloc h n)))"
  by (rule reach_balloc [OF assms])

lemma first_min_exists:
  fixes f :: "'a \<Rightarrow> int"
  assumes "\<exists>z \<in> set bs. P z"
  shows "\<exists>xs z ys. bs = xs @ z # ys \<and> P z \<and>
           (\<forall>y \<in> set xs. P y \<longrightarrow> f z < f y) \<and> (\<forall>y \<in> set ys. P y \<longrightarrow> f z \<le> f y)"
  using assms
proof (induction bs)
  case Nil
  then show ?case by simp
next
  case (Cons a bs)
  show ?case
  proof (cases "\<exists>z \<in> set bs. P z")
    case False
    with Cons.prems have "P a" by auto
    with False have "a # bs = [] @ a # bs \<and> P a \<and>
        (\<forall>y \<in> set []. P y \<longrightarrow> f a < f y) \<and> (\<forall>y \<in> set bs. P y \<longrightarrow> f a \<le> f y)" by auto
    then show ?thesis by blast
  next
    case True
    from Cons.IH [OF this] obtain xs z ys where z: "bs = xs @ z # ys" "P z"
      "\<forall>y \<in> set xs. P y \<longrightarrow> f z < f y" "\<forall>y \<in> set ys. P y \<longrightarrow> f z \<le> f y" by blast
    show ?thesis
    proof (cases "P a \<and> f a \<le> f z")
      case True
      with z have "a # bs = [] @ a # bs \<and> P a \<and>
          (\<forall>y \<in> set []. P y \<longrightarrow> f a < f y) \<and> (\<forall>y \<in> set bs. P y \<longrightarrow> f a \<le> f y)"
        by fastforce
      then show ?thesis by blast
    next
      case False
      with z have "a # bs = (a # xs) @ z # ys \<and> P z \<and>
          (\<forall>y \<in> set (a # xs). P y \<longrightarrow> f z < f y) \<and> (\<forall>y \<in> set ys. P y \<longrightarrow> f z \<le> f y)"
        by auto
      then show ?thesis by blast
    qed
  qed
qed

lemma merge_runs_free_run:
  assumes "\<not> is_allocated x" and "\<forall>z \<in> set run. is_free_block z"
    and "ys = [] \<or> is_allocated (snd (hd ys))"
  shows "merge_runs ((b, x) # run @ ys) = (b, x + total_size run) # merge_runs ys"
proof -
  from assms(3) have "takeWhile is_free_block ys = []"
    by (cases ys) (auto simp: is_free_block_def)
  with assms(2) have tw: "takeWhile is_free_block (run @ ys) = run"
    by simp
  from assms(3) have "dropWhile is_free_block ys = ys"
    by (cases ys) (auto simp: is_free_block_def)
  with assms(2) have dw: "dropWhile is_free_block (run @ ys) = ys"
    by simp
  from assms(1) tw dw show ?thesis by simp
qed

lemma merge_runs_append:
  assumes "xs = [] \<or> is_allocated (snd (last xs))"
  shows "merge_runs (xs @ zs) = merge_runs xs @ merge_runs zs"
  using assms
proof (induction xs rule: merge_runs.induct)
  case 1
  then show ?case by simp
next
  case (2 b x bs)
  show ?case
  proof (cases "is_allocated x")
    case True
    have "bs = [] \<or> is_allocated (snd (last bs))" using "2.prems" by (cases bs) auto
    from "2.IH"(1) [OF True this] True show ?thesis by simp
  next
    case False
    with "2.prems" have ne: "bs \<noteq> []" and la: "is_allocated (snd (last bs))"
      by (auto split: if_splits)
    then have "last bs \<in> set bs" "\<not> is_free_block (last bs)"
      by (simp_all add: is_free_block_def)
    then have tw: "takeWhile is_free_block (bs @ zs) = takeWhile is_free_block bs"
      and dw: "dropWhile is_free_block (bs @ zs) = dropWhile is_free_block bs @ zs"
      by simp_all
    have dne: "dropWhile is_free_block bs \<noteq> []"
      using \<open>last bs \<in> set bs\<close> \<open>\<not> is_free_block (last bs)\<close> by auto
    have "last (dropWhile is_free_block bs) = last bs"
      by (metis dne last_appendR takeWhile_dropWhile_id)
    with la dne have "dropWhile is_free_block bs = [] \<or>
        is_allocated (snd (last (dropWhile is_free_block bs)))" by simp
    from "2.IH"(2) [OF False this] False tw dw show ?thesis by simp
  qed
qed

lemma length_merge_runs:
  "length (merge_runs bs) \<le> length bs"
  "length (merge_runs bs) < length bs \<longleftrightarrow> adjacent_free bs"
proof -
  have "length (merge_runs bs) \<le> length bs \<and>
      (length (merge_runs bs) < length bs \<longleftrightarrow> adjacent_free bs)"
  proof (induction bs rule: merge_runs.induct)
    case 1
    then show ?case by simp
  next
    case (2 b x bs)
    show ?case
    proof (cases "is_allocated x")
      case True
      with "2.IH"(1) show ?thesis by (simp add: adjacent_free_alloc)
    next
      case False
      let ?run = "takeWhile is_free_block bs" and ?rest = "dropWhile is_free_block bs"
      have len: "length bs = length ?run + length ?rest"
        by (metis length_append takeWhile_dropWhile_id)
      from "2.IH"(2) [OF False] len adjacent_free_run [OF False, of b bs] False
      show ?thesis by auto
    qed
  qed
  then show "length (merge_runs bs) \<le> length bs"
    and "length (merge_runs bs) < length bs \<longleftrightarrow> adjacent_free bs" by simp_all
qed

lemma example_heap_st:
  "wf_heap example_heap [(65540, 4090)]"
  "init_heap example_env (start_heap (\<lambda>a. 0)) 4096 = (0, example_heap)"
  "reachable example_heap"
  "heap_start example_heap = 65540" "alloc_size example_heap = 4088"
  by (rule example_heap_wf example_init example_heap_reachable example_heap_fields)+

lemma merge_runs_keeps_allocated:
  "(b, x) \<in> set bs \<Longrightarrow> is_allocated x \<Longrightarrow> (b, x) \<in> set (merge_runs bs)"
proof (induction bs rule: merge_runs.induct)
  case 1
  then show ?case by simp
next
  case (2 c y bs)
  show ?case
  proof (cases "is_allocated y")
    case True
    with 2 show ?thesis by auto
  next
    case False
    with "2.prems" have "(b, x) \<in> set bs" by auto
    then have "(b, x) \<in> set (takeWhile is_free_block bs @ dropWhile is_free_block bs)" by simp
    then have "(b, x) \<in> set (takeWhile is_free_block bs) \<or>
        (b, x) \<in> set (dropWhile is_free_block bs)"
      unfolding set_append by blast
    moreover have "(b, x) \<notin> set (takeWhile is_free_block bs)"
      using "2.prems"(2) by (auto dest: set_takeWhileD simp: is_free_block_def)
    ultimately have "(b, x) \<in> set (dropWhile is_free_block bs)" by simp
    from "2.IH"(2) [OF False this "2.prems"(2)] False show ?thesis by simp
  qed
qed

lemma wf_run_grow:
  assumes wf: "wf_heap h (xs @ (b, x) # run @ ys)"
  shows "blk_size (x + total_size run) = blk_size x + total_size run"
    and "is_allocated (x + total_size run) = is_allocated x"
    and "pred_allocated (x + total_size run) = pred_allocated x"
proof -
  note at = chain_at [OF wf_heapD(1) [OF wf]]
  from at(4) have run: "chain (mem h) (b + blk_size x) run (b + blk_size x + total_size run)"
    by (simp add: chain_append)
  note g = hdr_grow [OF at(3) total_size_nonneg [OF run] total_size_mod [OF run]]
  from g show "blk_size (x + total_size run) = blk_size x + total_size run"
    and "is_allocated (x + total_size run) = is_allocated x"
    and "pred_allocated (x + total_size run) = pred_allocated x" by simp_all
qed

lemma balloc_success:
  assumes wf: "wf_heap h bs" and bal: "balloc h n = Some (p, h')" and p: "p \<noteq> NULL"
  shows "0 < n \<and> n \<le> alloc_size h \<and> same_globals h h' \<and>
         (\<exists>xs b x ys. wf_heap h' (xs @ (b, x) # ys) \<and> p = b + 4 \<and> is_allocated x \<and>
            blk_size x = padded_block_size n)"
proof -
  let ?req = "padded_block_size n"
  from bal p have n: "0 < n" "n \<le> alloc_size h" by (auto simp: balloc_def split: if_splits)
  note pb = padded_block_size_props [OF n(1)]
  show ?thesis
  proof (cases "\<exists>(c, y) \<in> set bs. \<not> is_allocated y \<and> blk_size y = ?req")
    case True
    from split_list_first_prop [OF this] obtain xs z ys where z: "bs = xs @ z # ys"
      "case z of (c, y) \<Rightarrow> \<not> is_allocated y \<and> blk_size y = ?req"
      "\<forall>u \<in> set xs. \<not> (case u of (c, y) \<Rightarrow> \<not> is_allocated y \<and> blk_size y = ?req)"
      by blast
    obtain b x where zz: "z = (b, x)" by (cases z)
    from z zz have x: "\<not> is_allocated x" "blk_size x = ?req"
      and first: "\<forall>(c, y) \<in> set xs. \<not> (\<not> is_allocated y \<and> blk_size y = ?req)" by auto
    note wf' = wf [unfolded z(1) zz]
    from balloc_exact_wf [OF wf' n x first] bal
    have "p = b + 4" "wf_heap h' (xs @ (b, x + 1) # set_pred ys)" "same_globals h h'" by auto
    moreover note hdr_set_a [OF wf_block_facts(6) [OF wf'] x(1)]
    ultimately show ?thesis using n x(2) by auto
  next
    case noexact: False
    show ?thesis
    proof (cases "\<exists>(c, y) \<in> set bs. \<not> is_allocated y \<and> ?req \<le> blk_size y")
      case False
      then have "\<forall>(c, y) \<in> set bs. \<not> (\<not> is_allocated y \<and> ?req \<le> blk_size y)" by auto
      from balloc_none_wf [OF wf n this] bal p show ?thesis by simp
    next
      case True
      from first_min_exists [OF this, of "\<lambda>(c, y). blk_size y"]
      obtain xs z ys where z: "bs = xs @ z # ys"
        "case z of (c, y) \<Rightarrow> \<not> is_allocated y \<and> ?req \<le> blk_size y"
        "\<forall>u \<in> set xs. (case u of (c, y) \<Rightarrow> \<not> is_allocated y \<and> ?req \<le> blk_size y) \<longrightarrow>
           (case z of (c, y) \<Rightarrow> blk_size y) < (case u of (c, y) \<Rightarrow> blk_size y)"
        "\<forall>u \<in> set ys. (case u of (c, y) \<Rightarrow> \<not> is_allocated y \<and> ?req \<le> blk_size y) \<longrightarrow>
           (case z of (c, y) \<Rightarrow> blk_size y) \<le> (case u of (c, y) \<Rightarrow> blk_size y)"
        by blast
      obtain b x where zz: "z = (b, x)" by (cases z)
      from z zz have x: "\<not> is_allocated x" "?req \<le> blk_size x"
        and before: "\<forall>(c, y) \<in> set xs. \<not> is_allocated y \<and> ?req \<le> blk_size y \<longrightarrow>
          blk_size x < blk_size y"
        and after: "\<forall>(c, y) \<in> set ys. \<not> is_allocated y \<and> ?req \<le> blk_size y \<longrightarrow>
          blk_size x \<le> blk_size y"
        by fastforce+
      note wf' = wf [unfolded z(1) zz]
      from noexact have ne: "\<forall>(c, y) \<in> set (xs @ (b, x) # ys).
          \<not> (\<not> is_allocated y \<and> blk_size y = ?req)" unfolding z(1) zz by auto
      from balloc_split_wf [OF wf' n ne x before after] bal
      have "p = b + 4" "wf_heap h' (xs @ (b, ?req + c_rem x 8 + 1) #
          (b + ?req, blk_size x - ?req + 2) # ys)" "same_globals h h'" by auto
      moreover note hdr_split_first [OF wf_block_facts(6) [OF wf'] x(1) pb(2,1)]
      ultimately show ?thesis using n by blast
    qed
  qed
qed

lemma length_set_pred [simp]: "length (set_pred ys) = length ys"
  by (cases ys rule: set_pred.cases) simp_all

lemma length_clear_pred [simp]: "length (clear_pred ys) = length ys"
  by (cases ys rule: clear_pred.cases) simp_all

lemma wf_heap_before_after:
  assumes wf: "wf_heap h (xs @ (b, x) # ys)"
  shows "(c, z) \<in> set xs \<Longrightarrow> c < b" and "(c, z) \<in> set ys \<Longrightarrow> b < c"
proof -
  note at = chain_at [OF wf_heapD(1) [OF wf]]
  show "c < b" if "(c, z) \<in> set xs" using chain_addr_range [OF at(5) that] by simp
  show "b < c" if "(c, z) \<in> set ys"
    using chain_addr_range [OF at(4) that] hdr_ok_size_pos [OF at(3)] by simp
qed

lemma example_a1_st:
  "wf_heap example_a1 [(65540, 43), (65580, 4050)]"
  "balloc example_heap 36 = Some (65544, example_a1)"
  "reachable example_a1"
  "heap_start example_a1 = 65540" "alloc_size example_a1 = 4088"
proof -
  note st = balloc_split_wf_fun [of example_heap "[]" 65540 4090 "[]" 36,
      folded example_a1_def]
  have pre: "wf_heap example_heap ([] @ (65540, 4090) # [])"
    using example_heap_st(1) by simp
  show "wf_heap example_a1 [(65540, 43), (65580, 4050)]"
    using st(2) [OF pre] by (simp add: example_heap_st(4,5) padded_block_size_def hdr_eval)
  show eq: "balloc example_heap 36 = Some (65544, example_a1)"
    using st(1) [OF pre] by (simp add: example_heap_st(4,5) padded_block_size_def hdr_eval)
  from reach_balloc [OF example_heap_st(3) eq] show "reachable example_a1" .
  show "heap_start example_a1 = 65540" "alloc_size example_a1 = 4088"
    using st(3) [OF pre]
    by (simp_all add: same_globals_def example_heap_st(4,5) padded_block_size_def hdr_eval)
qed

lemma example_a2_st:
  "wf_heap example_a2 [(65540, 43), (65580, 19), (65596, 4034)]"
  "balloc example_a1 12 = Some (65584, example_a2)"
  "reachable example_a2"
  "heap_start example_a2 = 65540" "alloc_size example_a2 = 4088"
proof -
  note st = balloc_split_wf_fun [of example_a1 "[(65540, 43)]" 65580 4050 "[]" 12,
      folded example_a2_def]
  have pre: "wf_heap example_a1 ([(65540, 43)] @ (65580, 4050) # [])"
    using example_a1_st(1) by simp
  show "wf_heap example_a2 [(65540, 43), (65580, 19), (65596, 4034)]"
    using st(2) [OF pre] by (simp add: example_a1_st(4,5) padded_block_size_def hdr_eval)
  show eq: "balloc example_a1 12 = Some (65584, example_a2)"
    using st(1) [OF pre] by (simp add: example_a1_st(4,5) padded_block_size_def hdr_eval)
  from reach_balloc [OF example_a1_st(3) eq] show "reachable example_a2" .
  show "heap_start example_a2 = 65540" "alloc_size example_a2 = 4088"
    using st(3) [OF pre]
    by (simp_all add: same_globals_def example_a1_st(4,5) padded_block_size_def hdr_eval)
qed

lemma example_a3_st:
  "wf_heap example_a3 [(65540, 43), (65580, 19), (65596, 67), (65660, 3970)]"
  "balloc example_a2 60 = Some (65600, example_a3)"
  "reachable example_a3"
  "heap_start example_a3 = 65540" "alloc_size example_a3 = 4088"
proof -
  note st = balloc_split_wf_fun [of example_a2 "[(65540, 43), (65580, 19)]" 65596 4034 "[]" 60,
      folded example_a3_def]
  have pre: "wf_heap example_a2 ([(65540, 43), (65580, 19)] @ (65596, 4034) # [])"
    using example_a2_st(1) by simp
  show "wf_heap example_a3 [(65540, 43), (65580, 19), (65596, 67), (65660, 3970)]"
    using st(2) [OF pre] by (simp add: example_a2_st(4,5) padded_block_size_def hdr_eval)
  show eq: "balloc example_a2 60 = Some (65600, example_a3)"
    using st(1) [OF pre] by (simp add: example_a2_st(4,5) padded_block_size_def hdr_eval)
  from reach_balloc [OF example_a2_st(3) eq] show "reachable example_a3" .
  show "heap_start example_a3 = 65540" "alloc_size example_a3 = 4088"
    using st(3) [OF pre]
    by (simp_all add: same_globals_def example_a2_st(4,5) padded_block_size_def hdr_eval)
qed

lemma example_a4_st:
  "wf_heap example_a4 [(65540, 42), (65580, 17), (65596, 67), (65660, 3970)]"
  "bfree example_a3 65544 = (0, example_a4)"
  "reachable example_a4"
  "heap_start example_a4 = 65540" "alloc_size example_a4 = 4088"
proof -
  have pre: "wf_heap example_a3 ([] @ (65540, 43) # [(65580, 19), (65596, 67), (65660, 3970)])"
    using example_a3_st(1) by simp
  note st = bfree_allocated_fun [OF pre] reachable_bfree_wf [OF example_a3_st(3) pre]
  show "wf_heap example_a4 [(65540, 42), (65580, 17), (65596, 67), (65660, 3970)]"
    using st(2) by (simp add: example_a4_def hdr_eval)
  show "bfree example_a3 65544 = (0, example_a4)"
    using st(1) by (simp add: example_a4_def hdr_eval)
  show "reachable example_a4" using st(4) by (simp add: example_a4_def)
  show "heap_start example_a4 = 65540" "alloc_size example_a4 = 4088"
    using st(3) by (simp_all add: same_globals_def example_a4_def example_a3_st(4,5) hdr_eval)
qed

lemma example_a5_st:
  "wf_heap example_a5 [(65540, 42), (65580, 16), (65596, 65), (65660, 3970)]"
  "bfree example_a4 65584 = (0, example_a5)"
  "reachable example_a5"
  "heap_start example_a5 = 65540" "alloc_size example_a5 = 4088"
proof -
  have pre: "wf_heap example_a4 ([(65540, 42)] @ (65580, 17) # [(65596, 67), (65660, 3970)])"
    using example_a4_st(1) by simp
  note st = bfree_allocated_fun [OF pre] reachable_bfree_wf [OF example_a4_st(3) pre]
  show "wf_heap example_a5 [(65540, 42), (65580, 16), (65596, 65), (65660, 3970)]"
    using st(2) by (simp add: example_a5_def hdr_eval)
  show "bfree example_a4 65584 = (0, example_a5)"
    using st(1) by (simp add: example_a5_def hdr_eval)
  show "reachable example_a5" using st(4) by (simp add: example_a5_def)
  show "heap_start example_a5 = 65540" "alloc_size example_a5 = 4088"
    using st(3) by (simp_all add: same_globals_def example_a5_def example_a4_st(4,5) hdr_eval)
qed

lemma example_a6_st:
  "wf_heap example_a6 [(65540, 42), (65580, 16), (65596, 64), (65660, 3968)]"
  "bfree example_a5 65600 = (0, example_a6)"
  "reachable example_a6"
  "heap_start example_a6 = 65540" "alloc_size example_a6 = 4088"
proof -
  have pre: "wf_heap example_a5 ([(65540, 42), (65580, 16)] @ (65596, 65) # [(65660, 3970)])"
    using example_a5_st(1) by simp
  note st = bfree_allocated_fun [OF pre] reachable_bfree_wf [OF example_a5_st(3) pre]
  show "wf_heap example_a6 [(65540, 42), (65580, 16), (65596, 64), (65660, 3968)]"
    using st(2) by (simp add: example_a6_def hdr_eval)
  show "bfree example_a5 65600 = (0, example_a6)"
    using st(1) by (simp add: example_a6_def hdr_eval)
  show "reachable example_a6" using st(4) by (simp add: example_a6_def)
  show "heap_start example_a6 = 65540" "alloc_size example_a6 = 4088"
    using st(3) by (simp_all add: same_globals_def example_a6_def example_a5_st(4,5) hdr_eval)
qed

lemma example_b1_st:
  "wf_heap example_b1 [(65540, 107), (65644, 3986)]"
  "balloc example_heap 100 = Some (65544, example_b1)"
  "reachable example_b1"
  "heap_start example_b1 = 65540" "alloc_size example_b1 = 4088"
proof -
  note st = balloc_split_wf_fun [of example_heap "[]" 65540 4090 "[]" 100,
      folded example_b1_def]
  have pre: "wf_heap example_heap ([] @ (65540, 4090) # [])"
    using example_heap_st(1) by simp
  show "wf_heap example_b1 [(65540, 107), (65644, 3986)]"
    using st(2) [OF pre] by (simp add: example_heap_st(4,5) padded_block_size_def hdr_eval)
  show eq: "balloc example_heap 100 = Some (65544, example_b1)"
    using st(1) [OF pre] by (simp add: example_heap_st(4,5) padded_block_size_def hdr_eval)
  from reach_balloc [OF example_heap_st(3) eq] show "reachable example_b1" .
  show "heap_start example_b1 = 65540" "alloc_size example_b1 = 4088"
    using st(3) [OF pre]
    by (simp_all add: same_globals_def example_heap_st(4,5) padded_block_size_def hdr_eval)
qed

lemma example_b2_st:
  "wf_heap example_b2 [(65540, 106), (65644, 3984)]"
  "bfree example_b1 65544 = (0, example_b2)"
  "reachable example_b2"
  "heap_start example_b2 = 65540" "alloc_size example_b2 = 4088"
proof -
  have pre: "wf_heap example_b1 ([] @ (65540, 107) # [(65644, 3986)])"
    using example_b1_st(1) by simp
  note st = bfree_allocated_fun [OF pre] reachable_bfree_wf [OF example_b1_st(3) pre]
  show "wf_heap example_b2 [(65540, 106), (65644, 3984)]"
    using st(2) by (simp add: example_b2_def hdr_eval)
  show "bfree example_b1 65544 = (0, example_b2)"
    using st(1) by (simp add: example_b2_def hdr_eval)
  show "reachable example_b2" using st(4) by (simp add: example_b2_def)
  show "heap_start example_b2 = 65540" "alloc_size example_b2 = 4088"
    using st(3) by (simp_all add: same_globals_def example_b2_def example_b1_st(4,5) hdr_eval)
qed

lemma example_b3_st:
  "wf_heap example_b3 [(65540, 11), (65548, 98), (65644, 3984)]"
  "balloc example_b2 4 = Some (65544, example_b3)"
  "reachable example_b3"
  "heap_start example_b3 = 65540" "alloc_size example_b3 = 4088"
proof -
  note st = balloc_split_wf_fun [of example_b2 "[]" 65540 106 "[(65644, 3984)]" 4,
      folded example_b3_def]
  have pre: "wf_heap example_b2 ([] @ (65540, 106) # [(65644, 3984)])"
    using example_b2_st(1) by simp
  show "wf_heap example_b3 [(65540, 11), (65548, 98), (65644, 3984)]"
    using st(2) [OF pre] by (simp add: example_b2_st(4,5) padded_block_size_def hdr_eval)
  show eq: "balloc example_b2 4 = Some (65544, example_b3)"
    using st(1) [OF pre] by (simp add: example_b2_st(4,5) padded_block_size_def hdr_eval)
  from reach_balloc [OF example_b2_st(3) eq] show "reachable example_b3" .
  show "heap_start example_b3 = 65540" "alloc_size example_b3 = 4088"
    using st(3) [OF pre]
    by (simp_all add: same_globals_def example_b2_st(4,5) padded_block_size_def hdr_eval)
qed

lemma example_b4_st:
  "wf_heap example_b4 [(65540, 107), (65644, 3986)]"
  "balloc example_b2 100 = Some (65544, example_b4)"
  "reachable example_b4"
  "heap_start example_b4 = 65540" "alloc_size example_b4 = 4088"
proof -
  note st = balloc_exact_wf_fun [of example_b2 "[]" 65540 106 "[(65644, 3984)]" 100,
      folded example_b4_def]
  have pre: "wf_heap example_b2 ([] @ (65540, 106) # [(65644, 3984)])"
    using example_b2_st(1) by simp
  show "wf_heap example_b4 [(65540, 107), (65644, 3986)]"
    using st(2) [OF pre] by (simp add: example_b2_st(4,5) padded_block_size_def hdr_eval)
  show eq: "balloc example_b2 100 = Some (65544, example_b4)"
    using st(1) [OF pre] by (simp add: example_b2_st(4,5) padded_block_size_def hdr_eval)
  from reach_balloc [OF example_b2_st(3) eq] show "reachable example_b4" .
  show "heap_start example_b4 = 65540" "alloc_size example_b4 = 4088"
    using st(3) [OF pre]
    by (simp_all add: same_globals_def example_b2_st(4,5) padded_block_size_def hdr_eval)
qed

lemma example_q1_st:
  "wf_heap example_q1 [(65540, 19), (65556, 4074)]"
  "balloc example_heap 12 = Some (65544, example_q1)"
  "reachable example_q1"
  "heap_start example_q1 = 65540" "alloc_size example_q1 = 4088"
proof -
  note st = balloc_split_wf_fun [of example_heap "[]" 65540 4090 "[]" 12,
      folded example_q1_def]
  have pre: "wf_heap example_heap ([] @ (65540, 4090) # [])"
    using example_heap_st(1) by simp
  show "wf_heap example_q1 [(65540, 19), (65556, 4074)]"
    using st(2) [OF pre] by (simp add: example_heap_st(4,5) padded_block_size_def hdr_eval)
  show eq: "balloc example_heap 12 = Some (65544, example_q1)"
    using st(1) [OF pre] by (simp add: example_heap_st(4,5) padded_block_size_def hdr_eval)
  from reach_balloc [OF example_heap_st(3) eq] show "reachable example_q1" .
  show "heap_start example_q1 = 65540" "alloc_size example_q1 = 4088"
    using st(3) [OF pre]
    by (simp_all add: same_globals_def example_heap_st(4,5) padded_block_size_def hdr_eval)
qed

lemma example_q2_st:
  "wf_heap example_q2 [(65540, 19), (65556, 27), (65580, 4050)]"
  "balloc example_q1 20 = Some (65560, example_q2)"
  "reachable example_q2"
  "heap_start example_q2 = 65540" "alloc_size example_q2 = 4088"
proof -
  note st = balloc_split_wf_fun [of example_q1 "[(65540, 19)]" 65556 4074 "[]" 20,
      folded example_q2_def]
  have pre: "wf_heap example_q1 ([(65540, 19)] @ (65556, 4074) # [])"
    using example_q1_st(1) by simp
  show "wf_heap example_q2 [(65540, 19), (65556, 27), (65580, 4050)]"
    using st(2) [OF pre] by (simp add: example_q1_st(4,5) padded_block_size_def hdr_eval)
  show eq: "balloc example_q1 20 = Some (65560, example_q2)"
    using st(1) [OF pre] by (simp add: example_q1_st(4,5) padded_block_size_def hdr_eval)
  from reach_balloc [OF example_q1_st(3) eq] show "reachable example_q2" .
  show "heap_start example_q2 = 65540" "alloc_size example_q2 = 4088"
    using st(3) [OF pre]
    by (simp_all add: same_globals_def example_q1_st(4,5) padded_block_size_def hdr_eval)
qed

lemma example_q3_st:
  "wf_heap example_q3 [(65540, 19), (65556, 27), (65580, 35), (65612, 4018)]"
  "balloc example_q2 28 = Some (65584, example_q3)"
  "reachable example_q3"
  "heap_start example_q3 = 65540" "alloc_size example_q3 = 4088"
proof -
  note st = balloc_split_wf_fun [of example_q2 "[(65540, 19), (65556, 27)]" 65580 4050 "[]" 28,
      folded example_q3_def]
  have pre: "wf_heap example_q2 ([(65540, 19), (65556, 27)] @ (65580, 4050) # [])"
    using example_q2_st(1) by simp
  show "wf_heap example_q3 [(65540, 19), (65556, 27), (65580, 35), (65612, 4018)]"
    using st(2) [OF pre] by (simp add: example_q2_st(4,5) padded_block_size_def hdr_eval)
  show eq: "balloc example_q2 28 = Some (65584, example_q3)"
    using st(1) [OF pre] by (simp add: example_q2_st(4,5) padded_block_size_def hdr_eval)
  from reach_balloc [OF example_q2_st(3) eq] show "reachable example_q3" .
  show "heap_start example_q3 = 65540" "alloc_size example_q3 = 4088"
    using st(3) [OF pre]
    by (simp_all add: same_globals_def example_q2_st(4,5) padded_block_size_def hdr_eval)
qed

lemma example_q4_st:
  "wf_heap example_q4 [(65540, 19), (65556, 27), (65580, 35), (65612, 107), (65716, 3914)]"
  "balloc example_q3 100 = Some (65616, example_q4)"
  "reachable example_q4"
  "heap_start example_q4 = 65540" "alloc_size example_q4 = 4088"
proof -
  note st = balloc_split_wf_fun [of example_q3 "[(65540, 19), (65556, 27), (65580, 35)]" 65612 4018 "[]" 100,
      folded example_q4_def]
  have pre: "wf_heap example_q3 ([(65540, 19), (65556, 27), (65580, 35)] @ (65612, 4018) # [])"
    using example_q3_st(1) by simp
  show "wf_heap example_q4 [(65540, 19), (65556, 27), (65580, 35), (65612, 107), (65716, 3914)]"
    using st(2) [OF pre] by (simp add: example_q3_st(4,5) padded_block_size_def hdr_eval)
  show eq: "balloc example_q3 100 = Some (65616, example_q4)"
    using st(1) [OF pre] by (simp add: example_q3_st(4,5) padded_block_size_def hdr_eval)
  from reach_balloc [OF example_q3_st(3) eq] show "reachable example_q4" .
  show "heap_start example_q4 = 65540" "alloc_size example_q4 = 4088"
    using st(3) [OF pre]
    by (simp_all add: same_globals_def example_q3_st(4,5) padded_block_size_def hdr_eval)
qed

lemma example_q5_st:
  "wf_heap example_q5 [(65540, 18), (65556, 25), (65580, 35), (65612, 107), (65716, 3914)]"
  "bfree example_q4 65544 = (0, example_q5)"
  "reachable example_q5"
  "heap_start example_q5 = 65540" "alloc_size example_q5 = 4088"
proof -
  have pre: "wf_heap example_q4 ([] @ (65540, 19) # [(65556, 27), (65580, 35), (65612, 107), (65716, 3914)])"
    using example_q4_st(1) by simp
  note st = bfree_allocated_fun [OF pre] reachable_bfree_wf [OF example_q4_st(3) pre]
  show "wf_heap example_q5 [(65540, 18), (65556, 25), (65580, 35), (65612, 107), (65716, 3914)]"
    using st(2) by (simp add: example_q5_def hdr_eval)
  show "bfree example_q4 65544 = (0, example_q5)"
    using st(1) by (simp add: example_q5_def hdr_eval)
  show "reachable example_q5" using st(4) by (simp add: example_q5_def)
  show "heap_start example_q5 = 65540" "alloc_size example_q5 = 4088"
    using st(3) by (simp_all add: same_globals_def example_q5_def example_q4_st(4,5) hdr_eval)
qed

lemma example_q6_st:
  "wf_heap example_q6 [(65540, 18), (65556, 24), (65580, 33), (65612, 107), (65716, 3914)]"
  "bfree example_q5 65560 = (0, example_q6)"
  "reachable example_q6"
  "heap_start example_q6 = 65540" "alloc_size example_q6 = 4088"
proof -
  have pre: "wf_heap example_q5 ([(65540, 18)] @ (65556, 25) # [(65580, 35), (65612, 107), (65716, 3914)])"
    using example_q5_st(1) by simp
  note st = bfree_allocated_fun [OF pre] reachable_bfree_wf [OF example_q5_st(3) pre]
  show "wf_heap example_q6 [(65540, 18), (65556, 24), (65580, 33), (65612, 107), (65716, 3914)]"
    using st(2) by (simp add: example_q6_def hdr_eval)
  show "bfree example_q5 65560 = (0, example_q6)"
    using st(1) by (simp add: example_q6_def hdr_eval)
  show "reachable example_q6" using st(4) by (simp add: example_q6_def)
  show "heap_start example_q6 = 65540" "alloc_size example_q6 = 4088"
    using st(3) by (simp_all add: same_globals_def example_q6_def example_q5_st(4,5) hdr_eval)
qed

lemma example_q7_st:
  "wf_heap example_q7 [(65540, 18), (65556, 24), (65580, 32), (65612, 105), (65716, 3914)]"
  "bfree example_q6 65584 = (0, example_q7)"
  "reachable example_q7"
  "heap_start example_q7 = 65540" "alloc_size example_q7 = 4088"
proof -
  have pre: "wf_heap example_q6 ([(65540, 18), (65556, 24)] @ (65580, 33) # [(65612, 107), (65716, 3914)])"
    using example_q6_st(1) by simp
  note st = bfree_allocated_fun [OF pre] reachable_bfree_wf [OF example_q6_st(3) pre]
  show "wf_heap example_q7 [(65540, 18), (65556, 24), (65580, 32), (65612, 105), (65716, 3914)]"
    using st(2) by (simp add: example_q7_def hdr_eval)
  show "bfree example_q6 65584 = (0, example_q7)"
    using st(1) by (simp add: example_q7_def hdr_eval)
  show "reachable example_q7" using st(4) by (simp add: example_q7_def)
  show "heap_start example_q7 = 65540" "alloc_size example_q7 = 4088"
    using st(3) by (simp_all add: same_globals_def example_q7_def example_q6_st(4,5) hdr_eval)
qed

lemma example_s1_st:
  "wf_heap example_s1 [(65540, 107), (65644, 3986)]"
  "mem example_s1 65548 = 4"
  "reachable example_s1"
  "heap_start example_s1 = 65540" "alloc_size example_s1 = 4088"
proof -
  have pre: "wf_heap example_b1 ([] @ (65540, 107) # [(65644, 3986)])"
    using example_b1_st(1) by simp
  show "wf_heap example_s1 [(65540, 107), (65644, 3986)]"
    using wf_store [OF pre, of 65548 4] by (simp add: example_s1_def hdr_eval)
  show "mem example_s1 65548 = 4" by (simp add: example_s1_def)
  show "reachable example_s1"
    unfolding example_s1_def
    by (rule reach_store [OF example_b1_st(3) wf_heap_blocks [OF example_b1_st(1)],
          of 65540 107]) (simp_all add: hdr_eval)
  show "heap_start example_s1 = 65540" "alloc_size example_s1 = 4088"
    by (simp_all add: example_s1_def example_b1_st(4,5))
qed

section \<open>Failure atomicity\<close>

text \<open>
  C4. A failing call is claimed to leave all allocator state, the recorded capacity
  included, as it was. \<^verbatim>\<open>init_heap\<close> assigns \<^verbatim>\<open>alloc_size\<close> before it opens
  \<^verbatim>\<open>/dev/zero\<close> and maps it: when the first call of a process asks for 4096 bytes and the
  open fails, or the open succeeds and \<^verbatim>\<open>mmap\<close> fails, the call returns \<open>-1\<close> and
  \<^verbatim>\<open>alloc_size\<close> has changed from 0 to 4096.
\<close>

theorem init_heap_failure_changes_alloc_size:
  "init_heap \<lparr>getpagesize = 4096, open_dev_zero = - 1, mmap_ptr = 65536\<rparr>
       (start_heap (\<lambda>a. 0)) 4096
     = (- 1, (start_heap (\<lambda>a. 0))\<lparr>alloc_size := 4096\<rparr>) \<and>
   init_heap \<lparr>getpagesize = 4096, open_dev_zero = 3, mmap_ptr = MAP_FAILED\<rparr>
       (start_heap (\<lambda>a. 0)) 4096
     = (- 1, (start_heap (\<lambda>a. 0))\<lparr>alloc_size := 4096\<rparr>) \<and>
   alloc_size (start_heap (\<lambda>a. 0)) = 0 \<and>
   (start_heap (\<lambda>a. 0))\<lparr>alloc_size := 4096\<rparr> \<noteq> start_heap (\<lambda>a. 0)"
proof -
  have "alloc_size ((start_heap (\<lambda>a. 0))\<lparr>alloc_size := 4096\<rparr>) \<noteq>
      alloc_size (start_heap (\<lambda>a. 0))"
    by (simp add: start_heap_def)
  then have "(start_heap (\<lambda>a. 0))\<lparr>alloc_size := 4096\<rparr> \<noteq> start_heap (\<lambda>a. 0)"
    by metis
  then show ?thesis
    by (simp add: init_heap_def start_heap_def c_rem_def Let_def MAP_FAILED_def)
qed

text \<open>
  The other failing calls do leave the state as it was: a second initialisation, a
  non-positive size, every \<^verbatim>\<open>bfree\<close> that returns \<open>-1\<close>, and, in a reachable state, every
  \<^verbatim>\<open>balloc\<close> that returns \<^verbatim>\<open>NULL\<close>.
\<close>

lemma other_failing_calls_change_nothing:
  "0 \<noteq> allocated_once h \<or> n \<le> 0 \<Longrightarrow> init_heap e h n = (- 1, h)"
  "bfree h ptr = (- 1, h') \<Longrightarrow> h' = h"
  "reachable h \<Longrightarrow> balloc h n = Some (NULL, h') \<Longrightarrow> h' = h"
proof -
  show "init_heap e h n = (- 1, h)" if "0 \<noteq> allocated_once h \<or> n \<le> 0"
    using that by (auto simp: init_heap_def)
  show "h' = h" if "bfree h ptr = (- 1, h')"
    using that by (auto simp: bfree_def Let_def split: if_splits)
  show "h' = h" if r: "reachable h" and b: "balloc h n = Some (NULL, h')"
  proof -
    from reachable_wf [OF r] obtain bs where wf: "wf_heap h bs" ..
    from balloc_cases [OF wf, of n] b
    consider "h' = h" | c x where "(c, x) \<in> set bs" "NULL = c + 4" by auto
    then show ?thesis
    proof cases
      case 1
      then show ?thesis .
    next
      case 2
      from 2(1) obtain xs ys where "bs = xs @ (c, x) # ys" by (auto dest: split_list)
      from wf_block_facts(3) [OF wf [unfolded this]] 2(2) show ?thesis
        by (simp add: NULL_def)
    qed
  qed
qed

section \<open>Invariants of the block list\<close>

text \<open>
  C2. In every reachable state the walk from \<^verbatim>\<open>heap_start\<close> ends at the end mark, the
  list has a first block whose predecessor-allocated bit is set, and the
  predecessor-allocated bit of every later block equals the allocated bit of the block
  immediately before it.
\<close>

theorem predecessor_bit_invariant:
  assumes "reachable h"
  shows "\<exists>bs. heap_blocks h = Some bs \<and> bs \<noteq> [] \<and> pred_allocated (snd (hd bs)) \<and>
           (\<forall>i. Suc i < length bs \<longrightarrow>
              pred_allocated (snd (bs ! Suc i)) = is_allocated (snd (bs ! i)))"
proof -
  from reachable_wf [OF assms] obtain bs where wf: "wf_heap h bs" ..
  from wf_heapD(3) [OF wf] wf_heap_size(1) [OF wf]
  have "pred_allocated (snd (hd bs))"
    and "\<forall>i. Suc i < length bs \<longrightarrow>
           pred_allocated (snd (bs ! Suc i)) = is_allocated (snd (bs ! i))"
    by (simp_all add: pbits_nth)
  with wf_heap_blocks [OF wf] wf_heap_size(1) [OF wf] show ?thesis by blast
qed

theorem predecessor_bit_invariant_witness:
  "reachable example_b1 \<and>
   heap_blocks example_b1 = Some [(65540, 107), (65644, 3986)] \<and>
   pred_allocated 107 \<and> pred_allocated 3986 = is_allocated 107"
proof -
  from predecessor_bit_invariant [OF example_b1_st(3)]
  obtain bs where bs: "heap_blocks example_b1 = Some bs" "pred_allocated (snd (hd bs))"
    "\<forall>i. Suc i < length bs \<longrightarrow> pred_allocated (snd (bs ! Suc i)) = is_allocated (snd (bs ! i))"
    by blast
  from bs(1) wf_heap_blocks [OF example_b1_st(1)]
  have eq: "bs = [(65540, 107), (65644, 3986)]" by simp
  from bs(2) bs(3) [rule_format, of 0] example_b1_st(3) bs(1) show ?thesis
    unfolding eq by simp
qed

text \<open>
  C3. In every reachable state the blocks lie back to back from \<^verbatim>\<open>heap_start\<close> to the
  end mark at \<^verbatim>\<open>heap_start + alloc_size\<close>, so the walk that advances by each block's size
  (status bits masked off) reaches the end mark and the sizes add up to \<^verbatim>\<open>alloc_size\<close>;
  a call of \<^verbatim>\<open>balloc\<close> (split or not) and a call of \<^verbatim>\<open>coalesce\<close> leave that total as it
  was.
\<close>

theorem size_conservation:
  assumes "reachable h"
  shows "\<exists>bs. heap_blocks h = Some bs \<and>
           chain (mem h) (heap_start h) bs (heap_start h + alloc_size h) \<and>
           mem h (heap_start h + alloc_size h) = 1 \<and>
           total_size bs = alloc_size h \<and>
           (\<forall>n p h'. balloc h n = Some (p, h') \<longrightarrow>
              (\<exists>bs'. heap_blocks h' = Some bs' \<and> total_size bs' = total_size bs)) \<and>
           (\<forall>c h'. coalesce h = Some (c, h') \<longrightarrow>
              (\<exists>bs'. heap_blocks h' = Some bs' \<and> total_size bs' = total_size bs))"
proof -
  from reachable_wf [OF assms] obtain bs where wf: "wf_heap h bs" ..
  note w = wf_heapD [OF wf]
  note sz = wf_heap_size(2) [OF wf]
  have "\<exists>bs'. heap_blocks h' = Some bs' \<and> total_size bs' = total_size bs"
    if b: "balloc h n = Some (p, h')" for n p h'
  proof -
    from reachable_wf [OF reach_balloc [OF assms b]] obtain bs' where wf': "wf_heap h' bs'" ..
    from reachable_same_globals_balloc [OF wf b] have "alloc_size h' = alloc_size h"
      by (simp add: same_globals_def)
    with wf_heap_size(2) [OF wf'] sz wf_heap_blocks [OF wf'] show ?thesis by simp
  qed
  moreover have "\<exists>bs'. heap_blocks h' = Some bs' \<and> total_size bs' = total_size bs"
    if c: "coalesce h = Some (c, h')" for c h'
  proof -
    from coalesce_wf [OF wf] c have wf': "wf_heap h' (merge_runs bs)" and "same_globals h h'"
      by auto
    then have "alloc_size h' = alloc_size h" by (simp add: same_globals_def)
    with wf_heap_size(2) [OF wf'] sz wf_heap_blocks [OF wf'] show ?thesis by simp
  qed
  ultimately show ?thesis using wf_heap_blocks [OF wf] w(1,2) sz by blast
qed

theorem size_conservation_witness:
  "reachable example_heap \<and>
   heap_blocks example_heap = Some [(65540, 4090)] \<and> total_size [(65540, 4090)] = 4088 \<and>
   balloc example_heap 100 = Some (65544, example_b1) \<and>
   heap_blocks example_b1 = Some [(65540, 107), (65644, 3986)] \<and>
   total_size [(65540, 107), (65644, 3986)] = 4088"
proof -
  from size_conservation [OF example_heap_reachable]
  obtain bs where bs: "heap_blocks example_heap = Some bs"
    "total_size bs = alloc_size example_heap"
    "\<forall>n p h'. balloc example_heap n = Some (p, h') \<longrightarrow>
       (\<exists>bs'. heap_blocks h' = Some bs' \<and> total_size bs' = total_size bs)"
    by blast
  from bs(1) wf_heap_blocks [OF example_heap_wf] have eq: "bs = [(65540, 4090)]" by simp
  from bs(3) example_b1_st(2)
  obtain bs' where bs': "heap_blocks example_b1 = Some bs'" "total_size bs' = total_size bs"
    by blast
  from bs'(1) wf_heap_blocks [OF example_b1_st(1)]
  have eq': "bs' = [(65540, 107), (65644, 3986)]" by simp
  from bs(1,2) bs' example_heap_reachable example_b1_st(2) show ?thesis
    unfolding eq eq' by (simp add: example_heap_fields)
qed

section \<open>Alignment\<close>

text \<open>
  C8. In every reachable state every header sits 4 bytes before an 8-byte boundary and
  every block size is a multiple of 8, and the payload address returned by a successful
  \<^verbatim>\<open>balloc\<close> (one that does not return \<^verbatim>\<open>NULL\<close>) is a multiple of 8.
\<close>

theorem balloc_payload_aligned:
  assumes "reachable h"
  shows "\<exists>bs. heap_blocks h = Some bs \<and>
           (\<forall>(b, x) \<in> set bs. (b + sizeof_blockHeader) mod 8 = 0 \<and> blk_size x mod 8 = 0) \<and>
           (\<forall>n p h'. balloc h n = Some (p, h') \<and> p \<noteq> NULL \<longrightarrow> p mod 8 = 0)"
proof -
  from reachable_wf [OF assms] obtain bs where wf: "wf_heap h bs" ..
  have hdr: "(b + 4) mod 8 = 0 \<and> blk_size x mod 8 = 0" if "(b, x) \<in> set bs" for b x
  proof -
    from that obtain xs ys where "bs = xs @ (b, x) # ys" by (auto dest: split_list)
    from wf_block_facts [OF wf [unfolded this]] have "b mod 8 = 4" "hdr_ok x" by simp_all
    then show ?thesis using hdr_ok_size_mod [of x] by presburger
  qed
  moreover have "p mod 8 = 0" if "balloc h n = Some (p, h')" "p \<noteq> NULL" for n p h'
  proof -
    from balloc_cases [OF wf, of n] that obtain b x where "(b, x) \<in> set bs" "p = b + 4"
      by auto
    with hdr show ?thesis by simp
  qed
  ultimately show ?thesis using wf_heap_blocks [OF wf] by blast
qed

theorem balloc_payload_aligned_witness:
  "reachable example_heap \<and> balloc example_heap 100 = Some (65544, example_b1) \<and>
   65544 \<noteq> NULL \<and> (65544 :: int) mod 8 = 0"
proof -
  from balloc_payload_aligned [OF example_heap_reachable]
  have "\<forall>n p h'. balloc example_heap n = Some (p, h') \<and> p \<noteq> NULL \<longrightarrow> p mod 8 = 0"
    by blast
  from this [rule_format, of 100 65544 example_b1] example_b1_st(2)
  have "(65544 :: int) mod 8 = 0" by (simp add: NULL_def)
  with example_heap_reachable example_b1_st(2) show ?thesis by (simp add: NULL_def)
qed

section \<open>Requests close to the capacity\<close>

text \<open>
  C10. In every reachable state a request of more than \<^verbatim>\<open>alloc_size - 4\<close> and at most
  \<^verbatim>\<open>alloc_size\<close> bytes is positive and within the capacity, so it passes the check of the
  argument, and \<^verbatim>\<open>balloc\<close> returns \<^verbatim>\<open>NULL\<close> and changes nothing: the padded block size
  exceeds \<^verbatim>\<open>alloc_size\<close>, which bounds every block. So a request that succeeds is of at
  most \<^verbatim>\<open>alloc_size - 4\<close> bytes, and on the heap that \<^verbatim>\<open>init_heap\<close> has just set up a
  request of exactly \<^verbatim>\<open>alloc_size - 4\<close> bytes succeeds.
\<close>

theorem balloc_near_capacity_fails:
  assumes "reachable h"
  shows "(\<forall>s. alloc_size h - 4 < s \<and> s \<le> alloc_size h \<longrightarrow>
            0 < s \<and> alloc_size h < padded_block_size s \<and> balloc h s = Some (NULL, h)) \<and>
         (\<forall>s p h'. balloc h s = Some (p, h') \<and> p \<noteq> NULL \<longrightarrow> s \<le> alloc_size h - 4) \<and>
         (\<forall>e h0 n. env_ok e \<and> init_heap e h0 n = (0, h) \<longrightarrow>
            (\<exists>h'. balloc h (alloc_size h - 4) = Some (heap_start h + sizeof_blockHeader, h')))"
proof -
  from reachable_wf [OF assms] obtain bs where wf: "wf_heap h bs" ..
  note sz = wf_heap_size(3,4) [OF wf]
  have fail: "0 < s \<and> alloc_size h < padded_block_size s \<and> balloc h s = Some (NULL, h)"
    if s: "alloc_size h - 4 < s" "s \<le> alloc_size h" for s
  proof -
    from s(1) sz(1) have pos: "0 < s" by simp
    from padded_block_size_props(3) [OF pos] s(1) have big: "alloc_size h < padded_block_size s"
      by simp
    from balloc_too_big [OF wf pos s(2) big] pos big show ?thesis by simp
  qed
  have bound: "s \<le> alloc_size h - 4" if b: "balloc h s = Some (p, h')" and p: "p \<noteq> NULL"
    for s p h'
  proof (rule ccontr)
    assume "\<not> s \<le> alloc_size h - 4"
    then have gt: "alloc_size h - 4 < s" by simp
    show False
    proof (cases "s \<le> alloc_size h")
      case True
      from fail [OF gt True] b p show False by simp
    next
      case False
      with b p show False by (simp add: balloc_def)
    qed
  qed
  from fail bound balloc_whole_heap show ?thesis by blast
qed

theorem balloc_near_capacity_fails_witness:
  "reachable example_heap \<and> alloc_size example_heap = 4088 \<and>
   padded_block_size 4085 = 4096 \<and> balloc example_heap 4085 = Some (NULL, example_heap) \<and>
   balloc example_heap 4088 = Some (NULL, example_heap) \<and>
   (\<exists>h'. balloc example_heap 4084 = Some (65544, h'))"
proof -
  note t = balloc_near_capacity_fails [OF example_heap_reachable]
  from t have "\<forall>s. alloc_size example_heap - 4 < s \<and> s \<le> alloc_size example_heap \<longrightarrow>
      balloc example_heap s = Some (NULL, example_heap)" by blast
  from this [rule_format, of 4085] this [rule_format, of 4088]
  have "balloc example_heap 4085 = Some (NULL, example_heap)"
    "balloc example_heap 4088 = Some (NULL, example_heap)"
    by (simp_all add: example_heap_fields)
  moreover from t example_env_ok example_init
  have "\<exists>h'. balloc example_heap (alloc_size example_heap - 4) =
      Some (heap_start example_heap + 4, h')" by blast
  then have "\<exists>h'. balloc example_heap 4084 = Some (65544, h')"
    by (simp add: example_heap_fields)
  moreover have "padded_block_size 4085 = 4096" by (simp add: padded_block_size_def c_rem_def)
  ultimately show ?thesis using example_heap_reachable by (simp add: example_heap_fields)
qed

section \<open>Placement policy of balloc\<close>

text \<open>
  C1. For a request \<open>r\<close> with \<open>0 < r \<le> alloc_size\<close> the required size is \<open>r\<close> plus the
  4-byte header rounded up to the next multiple of 8. When the block list is
  \<open>xs @ (b, x) # ys\<close> and \<open>(b, x)\<close> is the first free block whose size is the required size,
  \<^verbatim>\<open>balloc\<close> returns its payload \<open>b + 4\<close>, marks it allocated, sets the
  predecessor-allocated bit of the block after it (when there is one) and changes no other
  word: the list keeps its length. When no free block has exactly the required size and
  \<open>(b, x)\<close> is a free block of at least the required size that is strictly smaller than
  every sufficient free block before it and no larger than any after it, \<^verbatim>\<open>balloc\<close>
  returns \<open>b + 4\<close> and splits the block: an allocated block of the required size with the
  predecessor bit of \<open>x\<close>, followed by a free block with the predecessor bit set and the rest
  of the size. When no free block is large enough it returns \<^verbatim>\<open>NULL\<close> and changes nothing.
\<close>

theorem balloc_placement:
  assumes "reachable h" and "0 < r" and "r \<le> alloc_size h" and "heap_blocks h = Some bs"
  shows "padded_block_size r mod 8 = 0 \<and> r + sizeof_blockHeader \<le> padded_block_size r \<and>
         padded_block_size r < r + sizeof_blockHeader + 8 \<and>
         (\<forall>xs b x ys.
            bs = xs @ (b, x) # ys \<and> \<not> is_allocated x \<and> blk_size x = padded_block_size r \<and>
            (\<forall>(c, y) \<in> set xs. \<not> (\<not> is_allocated y \<and> blk_size y = padded_block_size r)) \<longrightarrow>
            (\<exists>h'. balloc h r = Some (b + sizeof_blockHeader, h') \<and>
                heap_blocks h' = Some (xs @ (b, x + 1) # set_pred ys) \<and>
                is_allocated (x + 1) \<and> blk_size (x + 1) = blk_size x \<and>
                pred_allocated (x + 1) = pred_allocated x \<and>
                (\<forall>u. u \<noteq> b \<and> u \<noteq> b + padded_block_size r \<longrightarrow> mem h' u = mem h u))) \<and>
         (\<forall>xs b x ys.
            bs = xs @ (b, x) # ys \<and>
            (\<forall>(c, y) \<in> set bs. \<not> (\<not> is_allocated y \<and> blk_size y = padded_block_size r)) \<and>
            \<not> is_allocated x \<and> padded_block_size r \<le> blk_size x \<and>
            (\<forall>(c, y) \<in> set xs. \<not> is_allocated y \<and> padded_block_size r \<le> blk_size y \<longrightarrow>
               blk_size x < blk_size y) \<and>
            (\<forall>(c, y) \<in> set ys. \<not> is_allocated y \<and> padded_block_size r \<le> blk_size y \<longrightarrow>
               blk_size x \<le> blk_size y) \<longrightarrow>
            (\<exists>h' x1 x2. x1 = padded_block_size r + c_rem x 8 + 1 \<and>
                x2 = blk_size x - padded_block_size r + 2 \<and>
                balloc h r = Some (b + sizeof_blockHeader, h') \<and>
                heap_blocks h' = Some (xs @ (b, x1) # (b + padded_block_size r, x2) # ys) \<and>
                is_allocated x1 \<and> blk_size x1 = padded_block_size r \<and>
                pred_allocated x1 = pred_allocated x \<and>
                \<not> is_allocated x2 \<and> pred_allocated x2 \<and>
                blk_size x2 = blk_size x - padded_block_size r \<and>
                (\<forall>u. u \<noteq> b \<and> u \<noteq> b + padded_block_size r \<longrightarrow> mem h' u = mem h u))) \<and>
         ((\<forall>(c, y) \<in> set bs. \<not> (\<not> is_allocated y \<and> padded_block_size r \<le> blk_size y)) \<longrightarrow>
            balloc h r = Some (NULL, h)) \<and>
         ((\<exists>(c, y) \<in> set bs. \<not> is_allocated y \<and> blk_size y = padded_block_size r) \<longrightarrow>
            (\<exists>xs b x ys. bs = xs @ (b, x) # ys \<and> \<not> is_allocated x \<and>
               blk_size x = padded_block_size r \<and>
               (\<forall>(c, y) \<in> set xs. \<not> (\<not> is_allocated y \<and> blk_size y = padded_block_size r)))) \<and>
         ((\<exists>(c, y) \<in> set bs. \<not> is_allocated y \<and> padded_block_size r \<le> blk_size y) \<longrightarrow>
            (\<exists>xs b x ys. bs = xs @ (b, x) # ys \<and> \<not> is_allocated x \<and>
               padded_block_size r \<le> blk_size x \<and>
               (\<forall>(c, y) \<in> set xs. \<not> is_allocated y \<and> padded_block_size r \<le> blk_size y \<longrightarrow>
                  blk_size x < blk_size y) \<and>
               (\<forall>(c, y) \<in> set ys. \<not> is_allocated y \<and> padded_block_size r \<le> blk_size y \<longrightarrow>
                  blk_size x \<le> blk_size y)))"
proof -
  let ?req = "padded_block_size r"
  from reachable_wf [OF assms(1)] obtain bs0 where "wf_heap h bs0" ..
  with assms(4) have wf: "wf_heap h bs" by (simp add: wf_heap_blocks)
  note pb = padded_block_size_props [OF assms(2)]
  have exact: "\<exists>h'. balloc h r = Some (b + 4, h') \<and>
      heap_blocks h' = Some (xs @ (b, x + 1) # set_pred ys) \<and>
      is_allocated (x + 1) \<and> blk_size (x + 1) = blk_size x \<and>
      pred_allocated (x + 1) = pred_allocated x \<and>
      (\<forall>u. u \<noteq> b \<and> u \<noteq> b + ?req \<longrightarrow> mem h' u = mem h u)"
    if bs: "bs = xs @ (b, x) # ys" and x: "\<not> is_allocated x" "blk_size x = ?req"
      and first: "\<forall>(c, y) \<in> set xs. \<not> (\<not> is_allocated y \<and> blk_size y = ?req)"
    for xs b x ys
  proof -
    note wf' = wf [unfolded bs]
    from balloc_exact_wf [OF wf' assms(2,3) x first]
    obtain h' where h': "balloc h r = Some (b + 4, h')"
      "wf_heap h' (xs @ (b, x + 1) # set_pred ys)"
      "\<forall>u. u \<noteq> b \<and> u \<noteq> b + ?req \<longrightarrow> mem h' u = mem h u" by blast
    from hdr_set_a [OF wf_block_facts(6) [OF wf'] x(1)] h'(1,3) wf_heap_blocks [OF h'(2)]
    show ?thesis by blast
  qed
  have split: "\<exists>h' x1 x2. x1 = ?req + c_rem x 8 + 1 \<and> x2 = blk_size x - ?req + 2 \<and>
      balloc h r = Some (b + 4, h') \<and>
      heap_blocks h' = Some (xs @ (b, x1) # (b + ?req, x2) # ys) \<and>
      is_allocated x1 \<and> blk_size x1 = ?req \<and> pred_allocated x1 = pred_allocated x \<and>
      \<not> is_allocated x2 \<and> pred_allocated x2 \<and> blk_size x2 = blk_size x - ?req \<and>
      (\<forall>u. u \<noteq> b \<and> u \<noteq> b + ?req \<longrightarrow> mem h' u = mem h u)"
    if bs: "bs = xs @ (b, x) # ys"
      and noexact: "\<forall>(c, y) \<in> set bs. \<not> (\<not> is_allocated y \<and> blk_size y = ?req)"
      and x: "\<not> is_allocated x" "?req \<le> blk_size x"
      and before: "\<forall>(c, y) \<in> set xs. \<not> is_allocated y \<and> ?req \<le> blk_size y \<longrightarrow>
        blk_size x < blk_size y"
      and after: "\<forall>(c, y) \<in> set ys. \<not> is_allocated y \<and> ?req \<le> blk_size y \<longrightarrow>
        blk_size x \<le> blk_size y"
    for xs b x ys
  proof -
    note wf' = wf [unfolded bs]
    note ok = wf_block_facts(6) [OF wf']
    from noexact bs x have lt: "?req < blk_size x" by force
    from balloc_split_wf [OF wf' assms(2,3) noexact [unfolded bs] x before after]
    obtain h' where h': "balloc h r = Some (b + 4, h')"
      "wf_heap h' (xs @ (b, ?req + c_rem x 8 + 1) # (b + ?req, blk_size x - ?req + 2) # ys)"
      "\<forall>u. u \<noteq> b \<and> u \<noteq> b + ?req \<longrightarrow> mem h' u = mem h u" by blast
    from hdr_split_first [OF ok x(1) pb(2,1)] hdr_split_second [OF ok lt pb(1)]
      h'(1,3) wf_heap_blocks [OF h'(2)]
    show ?thesis by blast
  qed
  have none: "balloc h r = Some (NULL, h)"
    if "\<forall>(c, y) \<in> set bs. \<not> (\<not> is_allocated y \<and> ?req \<le> blk_size y)"
    by (rule balloc_none_wf [OF wf assms(2,3) that])
  have first_exact: "\<exists>xs b x ys. bs = xs @ (b, x) # ys \<and> \<not> is_allocated x \<and> blk_size x = ?req \<and>
      (\<forall>(c, y) \<in> set xs. \<not> (\<not> is_allocated y \<and> blk_size y = ?req))"
    if "\<exists>(c, y) \<in> set bs. \<not> is_allocated y \<and> blk_size y = ?req"
  proof -
    from split_list_first_prop [OF that] obtain xs z ys where z: "bs = xs @ z # ys"
      "case z of (c, y) \<Rightarrow> \<not> is_allocated y \<and> blk_size y = ?req"
      "\<forall>u \<in> set xs. \<not> (case u of (c, y) \<Rightarrow> \<not> is_allocated y \<and> blk_size y = ?req)"
      by blast
    obtain b x where "z = (b, x)" by (cases z)
    with z have "bs = xs @ (b, x) # ys \<and> \<not> is_allocated x \<and> blk_size x = ?req \<and>
      (\<forall>(c, y) \<in> set xs. \<not> (\<not> is_allocated y \<and> blk_size y = ?req))" by auto
    then show ?thesis by blast
  qed
  have first_min: "\<exists>xs b x ys. bs = xs @ (b, x) # ys \<and> \<not> is_allocated x \<and> ?req \<le> blk_size x \<and>
      (\<forall>(c, y) \<in> set xs. \<not> is_allocated y \<and> ?req \<le> blk_size y \<longrightarrow> blk_size x < blk_size y) \<and>
      (\<forall>(c, y) \<in> set ys. \<not> is_allocated y \<and> ?req \<le> blk_size y \<longrightarrow> blk_size x \<le> blk_size y)"
    if "\<exists>(c, y) \<in> set bs. \<not> is_allocated y \<and> ?req \<le> blk_size y"
  proof -
    from first_min_exists [OF that, of "\<lambda>(c, y). blk_size y"]
    obtain xs z ys where z: "bs = xs @ z # ys"
      "case z of (c, y) \<Rightarrow> \<not> is_allocated y \<and> ?req \<le> blk_size y"
      "\<forall>u \<in> set xs. (case u of (c, y) \<Rightarrow> \<not> is_allocated y \<and> ?req \<le> blk_size y) \<longrightarrow>
         (case z of (c, y) \<Rightarrow> blk_size y) < (case u of (c, y) \<Rightarrow> blk_size y)"
      "\<forall>u \<in> set ys. (case u of (c, y) \<Rightarrow> \<not> is_allocated y \<and> ?req \<le> blk_size y) \<longrightarrow>
         (case z of (c, y) \<Rightarrow> blk_size y) \<le> (case u of (c, y) \<Rightarrow> blk_size y)"
      by blast
    obtain b x where "z = (b, x)" by (cases z)
    with z have "bs = xs @ (b, x) # ys \<and> \<not> is_allocated x \<and> ?req \<le> blk_size x \<and>
      (\<forall>(c, y) \<in> set xs. \<not> is_allocated y \<and> ?req \<le> blk_size y \<longrightarrow> blk_size x < blk_size y) \<and>
      (\<forall>(c, y) \<in> set ys. \<not> is_allocated y \<and> ?req \<le> blk_size y \<longrightarrow> blk_size x \<le> blk_size y)"
      by fastforce
    then show ?thesis by blast
  qed
  show ?thesis
  proof (intro conjI allI impI; (elim conjE)?)
    show "?req mod 8 = 0" by (rule pb(1))
    show "r + 4 \<le> ?req" by (rule pb(3))
    show "?req < r + 4 + 8" using pb(4) by simp
  qed (rule exact split none first_exact first_min; assumption)+
qed

theorem balloc_placement_witness:
  "reachable example_a6 \<and> alloc_size example_a6 = 4088 \<and>
   heap_blocks example_a6 = Some [(65540, 42), (65580, 16), (65596, 64), (65660, 3968)] \<and>
   padded_block_size 12 = 16 \<and>
   (\<exists>h'. balloc example_a6 12 = Some (65584, h') \<and>
      heap_blocks h' = Some [(65540, 42), (65580, 17), (65596, 66), (65660, 3968)]) \<and>
   padded_block_size 20 = 24 \<and>
   (\<exists>h'. balloc example_a6 20 = Some (65544, h') \<and>
      heap_blocks h' =
        Some [(65540, 27), (65564, 18), (65580, 16), (65596, 64), (65660, 3968)])"
proof -
  let ?bs = "[(65540, 42), (65580, 16), (65596, 64), (65660, 3968)] :: (addr \<times> int) list"
  note blocks = wf_heap_blocks [OF example_a6_st(1)]
  have "\<exists>h'. balloc example_a6 12 = Some (65580 + 4, h') \<and>
      heap_blocks h' = Some ([(65540, 42)] @ (65580, 16 + 1) #
        set_pred [(65596, 64), (65660, 3968)])"
    using balloc_placement [OF example_a6_st(3) _ _ blocks, of 12, THEN conjunct2, THEN conjunct2,
        THEN conjunct2, THEN conjunct1, rule_format,
        of "[(65540, 42)]" 65580 16 "[(65596, 64), (65660, 3968)]"]
    by (simp add: example_a6_st(4,5) padded_block_size_def hdr_eval) blast
  moreover have "\<exists>h' x1 x2. x1 = padded_block_size 20 + c_rem 42 8 + 1 \<and>
      x2 = blk_size 42 - padded_block_size 20 + 2 \<and>
      balloc example_a6 20 = Some (65540 + 4, h') \<and>
      heap_blocks h' = Some ([] @ (65540, x1) # (65540 + padded_block_size 20, x2) #
        [(65580, 16), (65596, 64), (65660, 3968)]) \<and>
      is_allocated x1 \<and> blk_size x1 = padded_block_size 20 \<and>
      pred_allocated x1 = pred_allocated 42 \<and>
      \<not> is_allocated x2 \<and> pred_allocated x2 \<and> blk_size x2 = blk_size 42 - padded_block_size 20"
    using balloc_placement [OF example_a6_st(3) _ _ blocks, of 20, THEN conjunct2, THEN conjunct2,
        THEN conjunct2, THEN conjunct2, THEN conjunct1, rule_format,
        of "[]" 65540 42 "[(65580, 16), (65596, 64), (65660, 3968)]"]
    by (simp add: example_a6_st(4,5) padded_block_size_def hdr_eval) blast
  then obtain h' where s: "balloc example_a6 20 = Some (65544, h')"
    "heap_blocks h' = Some [(65540, 27), (65564, 18), (65580, 16), (65596, 64), (65660, 3968)]"
    by (auto simp: padded_block_size_def hdr_eval)
  ultimately show ?thesis
    using example_a6_st(3) blocks by (simp add: example_a6_st(4,5) padded_block_size_def c_rem_def)
qed

section \<open>coalesce\<close>

text \<open>
  C6. In every reachable state \<^verbatim>\<open>coalesce\<close> returns, and the block list afterwards is
  \<open>merge_runs\<close> of the list before: wherever the list is \<open>xs @ (b, x) # run @ ys\<close> with
  \<open>(b, x) # run\<close> a maximal run of free blocks (the block before it, if any, and the block
  after it, if any, are allocated), the run has become the one block at \<open>b\<close>, free, with the
  predecessor bit of \<open>x\<close> and the sum of the run's sizes as its size. Only headers of free
  blocks are written, so allocated blocks (which all stay in the list), payloads and the
  end mark are as before. The result is 1 when the list had two adjacent free blocks,
  which is exactly when the list has become shorter, and 0 otherwise.
\<close>

theorem coalesce_merges_runs:
  assumes "reachable h" and "heap_blocks h = Some bs"
  shows "\<exists>c h'. coalesce h = Some (c, h') \<and> heap_blocks h' = Some (merge_runs bs) \<and>
           same_globals h h' \<and>
           c = (if adjacent_free bs then 1 else 0) \<and>
           (adjacent_free bs \<longleftrightarrow> length (merge_runs bs) < length bs) \<and>
           (\<forall>u. (\<forall>(b, x) \<in> set bs. b = u \<longrightarrow> is_allocated x) \<longrightarrow> mem h' u = mem h u) \<and>
           mem h' (heap_start h + alloc_size h) = 1 \<and>
           (\<forall>(b, x) \<in> set bs. is_allocated x \<longrightarrow> (b, x) \<in> set (merge_runs bs)) \<and>
           (\<forall>xs b x run ys.
              bs = xs @ (b, x) # run @ ys \<and> (xs = [] \<or> is_allocated (snd (last xs))) \<and>
              \<not> is_allocated x \<and> (\<forall>z \<in> set run. is_free_block z) \<and>
              (ys = [] \<or> is_allocated (snd (hd ys))) \<longrightarrow>
              merge_runs bs = merge_runs xs @ (b, x + total_size run) # merge_runs ys \<and>
              \<not> is_allocated (x + total_size run) \<and>
              blk_size (x + total_size run) = total_size ((b, x) # run) \<and>
              pred_allocated (x + total_size run) = pred_allocated x)"
proof -
  from reachable_wf [OF assms(1)] obtain bs0 where "wf_heap h bs0" ..
  with assms(2) have wf: "wf_heap h bs" by (simp add: wf_heap_blocks)
  from coalesce_wf [OF wf] obtain h' where h':
    "coalesce h = Some (if adjacent_free bs then 1 else 0, h')"
    "wf_heap h' (merge_runs bs)" "same_globals h h'"
    "\<forall>u. (\<forall>z \<in> set bs. fst z = u \<longrightarrow> is_allocated (snd z)) \<longrightarrow> mem h' u = mem h u"
    by blast
  have frame: "\<forall>u. (\<forall>(b, x) \<in> set bs. b = u \<longrightarrow> is_allocated x) \<longrightarrow> mem h' u = mem h u"
  proof (intro allI impI)
    fix u assume "\<forall>(b, x) \<in> set bs. b = u \<longrightarrow> is_allocated x"
    then have "\<forall>z \<in> set bs. fst z = u \<longrightarrow> is_allocated (snd z)" by auto
    with h'(4) show "mem h' u = mem h u" by blast
  qed
  have endm: "mem h' (heap_start h + alloc_size h) = 1"
    using wf_heapD(2) [OF h'(2)] h'(3) by (simp add: same_globals_def)
  have keep: "\<forall>(b, x) \<in> set bs. is_allocated x \<longrightarrow> (b, x) \<in> set (merge_runs bs)"
    by (auto intro: merge_runs_keeps_allocated)
  have runs: "merge_runs bs = merge_runs xs @ (b, x + total_size run) # merge_runs ys \<and>
      \<not> is_allocated (x + total_size run) \<and>
      blk_size (x + total_size run) = total_size ((b, x) # run) \<and>
      pred_allocated (x + total_size run) = pred_allocated x"
    if bs: "bs = xs @ (b, x) # run @ ys" and xs: "xs = [] \<or> is_allocated (snd (last xs))"
      and x: "\<not> is_allocated x" and run: "\<forall>z \<in> set run. is_free_block z"
      and ys: "ys = [] \<or> is_allocated (snd (hd ys))"
    for xs b x run ys
  proof -
    note g = wf_run_grow [OF wf [unfolded bs]]
    have "merge_runs bs = merge_runs xs @ merge_runs ((b, x) # run @ ys)"
      unfolding bs by (rule merge_runs_append [OF xs])
    also have "merge_runs ((b, x) # run @ ys) = (b, x + total_size run) # merge_runs ys"
      by (rule merge_runs_free_run [OF x run ys])
    finally show ?thesis using g x by simp
  qed
  show ?thesis
  proof (intro exI conjI)
    show "coalesce h = Some (if adjacent_free bs then 1 else 0, h')" by (rule h'(1))
    show "heap_blocks h' = Some (merge_runs bs)" by (rule wf_heap_blocks [OF h'(2)])
    show "same_globals h h'" by (rule h'(3))
    show "(if adjacent_free bs then 1 else 0) = (if adjacent_free bs then 1 else (0::int))" ..
    show "adjacent_free bs \<longleftrightarrow> length (merge_runs bs) < length bs"
      by (simp add: length_merge_runs(2))
    show "\<forall>u. (\<forall>(b, x) \<in> set bs. b = u \<longrightarrow> is_allocated x) \<longrightarrow> mem h' u = mem h u"
      by (rule frame)
    show "mem h' (heap_start h + alloc_size h) = 1" by (rule endm)
    show "\<forall>(b, x) \<in> set bs. is_allocated x \<longrightarrow> (b, x) \<in> set (merge_runs bs)" by (rule keep)
    show "\<forall>xs b x run ys.
        bs = xs @ (b, x) # run @ ys \<and> (xs = [] \<or> is_allocated (snd (last xs))) \<and>
        \<not> is_allocated x \<and> (\<forall>z \<in> set run. is_free_block z) \<and>
        (ys = [] \<or> is_allocated (snd (hd ys))) \<longrightarrow>
        merge_runs bs = merge_runs xs @ (b, x + total_size run) # merge_runs ys \<and>
        \<not> is_allocated (x + total_size run) \<and>
        blk_size (x + total_size run) = total_size ((b, x) # run) \<and>
        pred_allocated (x + total_size run) = pred_allocated x"
      using runs by blast
  qed
qed

theorem coalesce_merges_runs_witness:
  "reachable example_q7 \<and>
   heap_blocks example_q7 =
     Some [(65540, 18), (65556, 24), (65580, 32), (65612, 105), (65716, 3914)] \<and>
   (\<exists>h'. coalesce example_q7 = Some (1, h') \<and>
      heap_blocks h' = Some [(65540, 74), (65612, 105), (65716, 3914)]) \<and>
   blk_size 18 = 16 \<and> blk_size 24 = 24 \<and> blk_size 32 = 32 \<and> blk_size 74 = 72 \<and>
   \<not> is_allocated 74 \<and> pred_allocated 74 = pred_allocated 18"
proof -
  let ?bs = "[(65540, 18), (65556, 24), (65580, 32), (65612, 105), (65716, 3914)]
      :: (addr \<times> int) list"
  note blocks = wf_heap_blocks [OF example_q7_st(1)]
  have m: "merge_runs ?bs = [(65540, 74), (65612, 105), (65716, 3914)]"
    by (simp add: is_free_block_def hdr_eval)
  have a: "adjacent_free ?bs" by (simp add: is_free_block_def hdr_eval)
  from coalesce_merges_runs [OF example_q7_st(3) blocks]
  obtain c h' where "coalesce example_q7 = Some (c, h')" "heap_blocks h' = Some (merge_runs ?bs)"
    "c = (if adjacent_free ?bs then 1 else 0)" by blast
  with m a have "\<exists>h'. coalesce example_q7 = Some (1, h') \<and>
      heap_blocks h' = Some [(65540, 74), (65612, 105), (65716, 3914)]" by auto
  with example_q7_st(3) blocks show ?thesis by (simp add: hdr_eval)
qed

text \<open>
  C7. In every reachable state, a call of \<^verbatim>\<open>coalesce\<close> that directly follows a call of
  \<^verbatim>\<open>coalesce\<close> returns 0 and leaves the heap as it is.
\<close>

theorem coalesce_idempotent:
  assumes "reachable h" and "coalesce h = Some (c, h')"
  shows "coalesce h' = Some (0, h')"
proof -
  from reachable_wf [OF assms(1)] obtain bs where wf: "wf_heap h bs" ..
  from coalesce_wf [OF wf] assms(2) have "wf_heap h' (merge_runs bs)" by auto
  from coalesce_noop [OF this not_adjacent_free_merge_runs] show ?thesis .
qed

theorem coalesce_idempotent_witness:
  "reachable example_q7 \<and>
   (\<exists>h'. coalesce example_q7 = Some (1, h') \<and> coalesce h' = Some (0, h'))"
proof -
  from coalesce_wf [OF example_q7_st(1)]
  obtain h' where h': "coalesce example_q7 =
      Some (if adjacent_free [(65540, 18), (65556, 24), (65580, 32), (65612, 105), (65716, 3914)]
            then 1 else 0, h')" by blast
  then have c: "coalesce example_q7 = Some (1, h')" by (simp add: is_free_block_def hdr_eval)
  from coalesce_idempotent [OF example_q7_st(3) c] c example_q7_st(3) show ?thesis by blast
qed

section \<open>Reuse after release\<close>

text \<open>
  C9. The claim is that after \<^verbatim>\<open>p = balloc(x)\<close> and \<^verbatim>\<open>bfree(p)\<close> a request of \<open>y \<le> x\<close>
  bytes reuses the freed block without any growth of the block list, as long as no other
  free block has exactly the required size. On the heap of 4088 bytes, after
  \<^verbatim>\<open>p = balloc(100)\<close> and \<^verbatim>\<open>bfree(p)\<close> the list has two blocks (104 and 3984 bytes, both
  free); \<^verbatim>\<open>balloc(4)\<close> needs 8 bytes, no free block has that size, and the call returns
  \<open>p\<close> again but splits the freed block: the list has three blocks.
\<close>

theorem reuse_without_growth_counterexample:
  "\<not> (\<forall>h x y p h1 h2 bs2 q h3 bs3.
        reachable h \<and> 0 < y \<and> y \<le> x \<and> balloc h x = Some (p, h1) \<and> p \<noteq> NULL \<and>
        bfree h1 p = (0, h2) \<and> heap_blocks h2 = Some bs2 \<and>
        (\<forall>(c, z) \<in> set bs2. c + sizeof_blockHeader \<noteq> p \<longrightarrow>
           \<not> (\<not> is_allocated z \<and> blk_size z = padded_block_size y)) \<and>
        balloc h2 y = Some (q, h3) \<and> heap_blocks h3 = Some bs3 \<longrightarrow>
        q = p \<and> length bs3 \<le> length bs2)"
proof
  assume "\<forall>h x y p h1 h2 bs2 q h3 bs3.
        reachable h \<and> 0 < y \<and> y \<le> x \<and> balloc h x = Some (p, h1) \<and> p \<noteq> NULL \<and>
        bfree h1 p = (0, h2) \<and> heap_blocks h2 = Some bs2 \<and>
        (\<forall>(c, z) \<in> set bs2. c + sizeof_blockHeader \<noteq> p \<longrightarrow>
           \<not> (\<not> is_allocated z \<and> blk_size z = padded_block_size y)) \<and>
        balloc h2 y = Some (q, h3) \<and> heap_blocks h3 = Some bs3 \<longrightarrow>
        q = p \<and> length bs3 \<le> length bs2"
  from this [rule_format, of example_heap 4 100 65544 example_b1 example_b2
      "[(65540, 106), (65644, 3984)]" 65544 example_b3
      "[(65540, 11), (65548, 98), (65644, 3984)]"]
    example_heap_st(3) example_b1_st(2) example_b2_st(2) example_b3_st(2)
    wf_heap_blocks [OF example_b2_st(1)] wf_heap_blocks [OF example_b3_st(1)]
  show False by (simp add: NULL_def padded_block_size_def hdr_eval)
qed

text \<open>
  C9, as the code has it. After \<^verbatim>\<open>p = balloc(x)\<close> and \<^verbatim>\<open>bfree(p)\<close>, with no other free block
  of exactly the size required for \<open>y \<le> x\<close>: when \<open>y\<close> requires the same block size as \<open>x\<close>,
  \<^verbatim>\<open>balloc(y)\<close> returns \<open>p\<close> and the list keeps its length; when \<open>y\<close> requires less and the
  freed block is the best fit (every other sufficient free block is larger if it lies
  before, and at least as large if it lies after), \<^verbatim>\<open>balloc(y)\<close> returns \<open>p\<close> and the list
  grows by the one block split off.
\<close>

theorem reuse_after_release:
  assumes "reachable h" and "0 < y" and "y \<le> x"
    and "balloc h x = Some (p, h1)" and "p \<noteq> NULL"
    and "bfree h1 p = (0, h2)" and "heap_blocks h2 = Some bs2"
    and "\<forall>(c, z) \<in> set bs2. c + sizeof_blockHeader \<noteq> p \<longrightarrow>
           \<not> (\<not> is_allocated z \<and> blk_size z = padded_block_size y)"
  shows "(padded_block_size y = padded_block_size x \<longrightarrow>
           (\<exists>h3 bs3. balloc h2 y = Some (p, h3) \<and> heap_blocks h3 = Some bs3 \<and>
              length bs3 = length bs2)) \<and>
         (padded_block_size y < padded_block_size x \<and>
          (\<forall>(c, z) \<in> set bs2. \<not> is_allocated z \<and> padded_block_size y \<le> blk_size z \<longrightarrow>
             (c + sizeof_blockHeader < p \<longrightarrow> padded_block_size x < blk_size z) \<and>
             (p < c + sizeof_blockHeader \<longrightarrow> padded_block_size x \<le> blk_size z)) \<longrightarrow>
           (\<exists>h3 bs3. balloc h2 y = Some (p, h3) \<and> heap_blocks h3 = Some bs3 \<and>
              length bs3 = length bs2 + 1))"
proof -
  let ?rx = "padded_block_size x" and ?ry = "padded_block_size y"
  from reachable_wf [OF assms(1)] obtain bs where wf: "wf_heap h bs" ..
  from balloc_success [OF wf assms(4,5)]
  obtain xs b x1 ys where x: "0 < x" "x \<le> alloc_size h" "same_globals h h1"
    and wf1: "wf_heap h1 (xs @ (b, x1) # ys)" and b: "p = b + 4"
    and x1: "is_allocated x1" "blk_size x1 = ?rx" by blast
  from bfree_allocated [OF wf1 x1(1)] assms(6) b
  have wf2: "wf_heap h2 (xs @ (b, x1 - 1) # clear_pred ys)" and g2: "same_globals h1 h2"
    by auto
  with assms(7) have bs2: "bs2 = xs @ (b, x1 - 1) # clear_pred ys"
    by (simp add: wf_heap_blocks)
  note c = hdr_clear_a [OF wf_block_facts(6) [OF wf1] x1(1)]
  from c(2) x1(2) have sz: "blk_size (x1 - 1) = ?rx" by simp
  from x g2 assms(3) have y: "y \<le> alloc_size h2" by (simp add: same_globals_def)
  note ba = wf_heap_before_after [OF wf2]
  have other: "\<not> (\<not> is_allocated z \<and> blk_size z = ?ry)"
    if "(c, z) \<in> set xs \<or> (c, z) \<in> set (clear_pred ys)" for c z
  proof -
    from that ba have "c \<noteq> b" by auto
    with that assms(8) bs2 b show ?thesis by auto
  qed
  have same: "\<exists>h3 bs3. balloc h2 y = Some (p, h3) \<and> heap_blocks h3 = Some bs3 \<and>
      length bs3 = length bs2" if eq: "?ry = ?rx"
  proof -
    have first: "\<forall>(c, z) \<in> set xs. \<not> (\<not> is_allocated z \<and> blk_size z = ?ry)"
      using other by blast
    from balloc_exact_wf [OF wf2 assms(2) y c(3) _ first] sz eq
    obtain h3 where "balloc h2 y = Some (b + 4, h3)"
      "wf_heap h3 (xs @ (b, x1 - 1 + 1) # set_pred (clear_pred ys))" by auto
    with b bs2 wf_heap_blocks [OF this(2)] show ?thesis by simp
  qed
  have grow: "\<exists>h3 bs3. balloc h2 y = Some (p, h3) \<and> heap_blocks h3 = Some bs3 \<and>
      length bs3 = length bs2 + 1"
    if lt: "?ry < ?rx"
      and best: "\<forall>(c, z) \<in> set bs2. \<not> is_allocated z \<and> ?ry \<le> blk_size z \<longrightarrow>
        (c + 4 < p \<longrightarrow> ?rx < blk_size z) \<and> (p < c + 4 \<longrightarrow> ?rx \<le> blk_size z)"
  proof -
    have noexact: "\<forall>(c, z) \<in> set (xs @ (b, x1 - 1) # clear_pred ys).
        \<not> (\<not> is_allocated z \<and> blk_size z = ?ry)"
      using other sz lt by auto
    have fit: "?ry \<le> blk_size (x1 - 1)" using sz lt by simp
    have before: "\<forall>(c, z) \<in> set xs. \<not> is_allocated z \<and> ?ry \<le> blk_size z \<longrightarrow>
        blk_size (x1 - 1) < blk_size z"
    proof (intro ballI, clarify)
      fix c z assume cz: "(c, z) \<in> set xs" "\<not> is_allocated z" "?ry \<le> blk_size z"
      from ba(1) [OF cz(1)] b have "c + 4 < p" by simp
      with best cz bs2 sz show "blk_size (x1 - 1) < blk_size z" by auto
    qed
    have after: "\<forall>(c, z) \<in> set (clear_pred ys). \<not> is_allocated z \<and> ?ry \<le> blk_size z \<longrightarrow>
        blk_size (x1 - 1) \<le> blk_size z"
    proof (intro ballI, clarify)
      fix c z assume cz: "(c, z) \<in> set (clear_pred ys)" "\<not> is_allocated z" "?ry \<le> blk_size z"
      from ba(2) [OF cz(1)] b have "p < c + 4" by simp
      with best cz bs2 sz show "blk_size (x1 - 1) \<le> blk_size z" by auto
    qed
    from balloc_split_wf [OF wf2 assms(2) y noexact c(3) fit before after]
    obtain h3 where "balloc h2 y = Some (b + 4, h3)"
      "wf_heap h3 (xs @ (b, ?ry + c_rem (x1 - 1) 8 + 1) #
         (b + ?ry, blk_size (x1 - 1) - ?ry + 2) # clear_pred ys)" by auto
    with b bs2 wf_heap_blocks [OF this(2)] show ?thesis by simp
  qed
  from same grow show ?thesis by blast
qed

theorem reuse_after_release_witness:
  "reachable example_heap \<and> balloc example_heap 100 = Some (65544, example_b1) \<and>
   bfree example_b1 65544 = (0, example_b2) \<and>
   heap_blocks example_b2 = Some [(65540, 106), (65644, 3984)] \<and>
   padded_block_size 97 = padded_block_size 100 \<and>
   (\<exists>h3 bs3. balloc example_b2 97 = Some (65544, h3) \<and> heap_blocks h3 = Some bs3 \<and>
      length bs3 = 2) \<and>
   padded_block_size 4 < padded_block_size 100 \<and>
   (\<exists>h3 bs3. balloc example_b2 4 = Some (65544, h3) \<and> heap_blocks h3 = Some bs3 \<and>
      length bs3 = 3)"
proof -
  note blocks = wf_heap_blocks [OF example_b2_st(1)]
  have p: "(65544 :: int) \<noteq> NULL" by (simp add: NULL_def)
  have "\<exists>h3 bs3. balloc example_b2 97 = Some (65544, h3) \<and> heap_blocks h3 = Some bs3 \<and>
      length bs3 = length [(65540 :: int, 106 :: int), (65644, 3984)]"
    using reuse_after_release [OF example_heap_st(3) _ _ example_b1_st(2) p example_b2_st(2)
        blocks, of 97, THEN conjunct1]
    by (simp add: padded_block_size_def hdr_eval)
  moreover have "\<exists>h3 bs3. balloc example_b2 4 = Some (65544, h3) \<and> heap_blocks h3 = Some bs3 \<and>
      length bs3 = length [(65540 :: int, 106 :: int), (65644, 3984)] + 1"
    using reuse_after_release [OF example_heap_st(3) _ _ example_b1_st(2) p example_b2_st(2)
        blocks, of 4, THEN conjunct2]
    by (simp add: padded_block_size_def hdr_eval)
  ultimately show ?thesis
    using example_heap_st(3) example_b1_st(2) example_b2_st(2) blocks
    by (simp add: padded_block_size_def c_rem_def numeral_2_eq_2 numeral_3_eq_3)
qed

section \<open>bfree\<close>

text \<open>
  C5. The claim is that \<^verbatim>\<open>bfree(ptr)\<close> fails exactly when \<open>ptr\<close> is null, misaligned, out of
  bounds, or the header 4 bytes before it has its allocated bit clear. The code tests
  \<^verbatim>\<open>rem == 0 || rem == 2\<close> on the low three bits of that word instead of the bit. After
  \<^verbatim>\<open>p = balloc(100)\<close> and \<^verbatim>\<open>((int *)p)[1] = 4\<close> the address \<open>p + 8 = 65552\<close> is non-null,
  a multiple of 8 and in bounds, and the word before it is 4, whose allocated bit is
  clear; \<^verbatim>\<open>bfree(p + 8)\<close> returns 0.
\<close>

theorem bfree_fails_iff_counterexample:
  "\<not> (\<forall>h ptr. reachable h \<longrightarrow>
        (fst (bfree h ptr) = - 1 \<longleftrightarrow>
           ptr = NULL \<or> ptr mod 8 \<noteq> 0 \<or> ptr < heap_start h \<or>
           heap_start h + alloc_size h < ptr \<or>
           \<not> is_allocated (mem h (ptr - sizeof_blockHeader))))"
proof
  assume "\<forall>h ptr. reachable h \<longrightarrow>
        (fst (bfree h ptr) = - 1 \<longleftrightarrow>
           ptr = NULL \<or> ptr mod 8 \<noteq> 0 \<or> ptr < heap_start h \<or>
           heap_start h + alloc_size h < ptr \<or>
           \<not> is_allocated (mem h (ptr - sizeof_blockHeader)))"
  from this [rule_format, OF example_s1_st(3), of 65552]
  have "fst (bfree example_s1 65552) = - 1"
    by (simp add: example_s1_st(2) hdr_eval)
  moreover have "fst (bfree example_s1 65552) = 0"
    by (simp add: bfree_def Let_def NULL_def example_s1_st(2,4,5) c_rem_def)
  ultimately show False by simp
qed

text \<open>
  C5, as the code has it. \<^verbatim>\<open>bfree(ptr)\<close> returns \<open>-1\<close> exactly when \<open>ptr\<close> is null, or not a
  multiple of 8, or outside \<open>heap_start .. heap_start + alloc_size\<close>, or the low three bits
  of the word 4 bytes before it are 0 or 2; it returns 0 otherwise, and a call that
  returns \<open>-1\<close> changes nothing. In a reachable state, when \<open>ptr\<close> is the payload address
  of a block \<open>(b, x)\<close> of the list, that last test is the test of the allocated bit: the
  call fails exactly when the block is free, and when it succeeds it clears the allocated
  bit of the block, clears the predecessor bit of the next block (if there is one),
  changes no other word, and a second \<^verbatim>\<open>bfree(ptr)\<close> returns \<open>-1\<close> and changes nothing.
\<close>

theorem bfree_behaviour:
  "(fst (bfree h ptr) = - 1 \<longleftrightarrow>
      ptr = NULL \<or> ptr mod 8 \<noteq> 0 \<or> ptr < heap_start h \<or> heap_start h + alloc_size h < ptr \<or>
      c_rem (mem h (ptr - sizeof_blockHeader)) 8 = 0 \<or>
      c_rem (mem h (ptr - sizeof_blockHeader)) 8 = 2) \<and>
   (fst (bfree h ptr) = 0 \<or> fst (bfree h ptr) = - 1) \<and>
   (fst (bfree h ptr) = - 1 \<longrightarrow> snd (bfree h ptr) = h) \<and>
   (reachable h \<longrightarrow>
      (\<forall>xs b x ys.
         heap_blocks h = Some (xs @ (b, x) # ys) \<and> ptr = b + sizeof_blockHeader \<longrightarrow>
         ptr \<noteq> NULL \<and> ptr mod 8 = 0 \<and> heap_start h \<le> ptr \<and>
         ptr \<le> heap_start h + alloc_size h \<and> mem h (ptr - sizeof_blockHeader) = x \<and>
         (fst (bfree h ptr) = - 1 \<longleftrightarrow> \<not> is_allocated x) \<and>
         (is_allocated x \<longrightarrow>
            (\<exists>h'. bfree h ptr = (0, h') \<and>
               heap_blocks h' = Some (xs @ (b, x - 1) # clear_pred ys) \<and>
               \<not> is_allocated (x - 1) \<and> blk_size (x - 1) = blk_size x \<and>
               pred_allocated (x - 1) = pred_allocated x \<and>
               (\<forall>c y t. ys = (c, y) # t \<longrightarrow>
                  c = b + blk_size x \<and> \<not> pred_allocated (y - 2) \<and>
                  is_allocated (y - 2) = is_allocated y \<and> blk_size (y - 2) = blk_size y) \<and>
               (\<forall>u. u \<noteq> b \<and> u \<noteq> b + blk_size x \<longrightarrow> mem h' u = mem h u) \<and>
               bfree h' ptr = (- 1, h')))))"
proof (intro conjI)
  show "fst (bfree h ptr) = - 1 \<longleftrightarrow>
      ptr = NULL \<or> ptr mod 8 \<noteq> 0 \<or> ptr < heap_start h \<or> heap_start h + alloc_size h < ptr \<or>
      c_rem (mem h (ptr - 4)) 8 = 0 \<or> c_rem (mem h (ptr - 4)) 8 = 2"
    by (simp add: bfree_def Let_def c_rem_zero_iff)
  show "fst (bfree h ptr) = 0 \<or> fst (bfree h ptr) = - 1"
    by (simp add: bfree_def Let_def)
  show "fst (bfree h ptr) = - 1 \<longrightarrow> snd (bfree h ptr) = h"
    by (simp add: bfree_def Let_def)
  show "reachable h \<longrightarrow>
      (\<forall>xs b x ys.
         heap_blocks h = Some (xs @ (b, x) # ys) \<and> ptr = b + 4 \<longrightarrow>
         ptr \<noteq> NULL \<and> ptr mod 8 = 0 \<and> heap_start h \<le> ptr \<and>
         ptr \<le> heap_start h + alloc_size h \<and> mem h (ptr - 4) = x \<and>
         (fst (bfree h ptr) = - 1 \<longleftrightarrow> \<not> is_allocated x) \<and>
         (is_allocated x \<longrightarrow>
            (\<exists>h'. bfree h ptr = (0, h') \<and>
               heap_blocks h' = Some (xs @ (b, x - 1) # clear_pred ys) \<and>
               \<not> is_allocated (x - 1) \<and> blk_size (x - 1) = blk_size x \<and>
               pred_allocated (x - 1) = pred_allocated x \<and>
               (\<forall>c y t. ys = (c, y) # t \<longrightarrow>
                  c = b + blk_size x \<and> \<not> pred_allocated (y - 2) \<and>
                  is_allocated (y - 2) = is_allocated y \<and> blk_size (y - 2) = blk_size y) \<and>
               (\<forall>u. u \<noteq> b \<and> u \<noteq> b + blk_size x \<longrightarrow> mem h' u = mem h u) \<and>
               bfree h' ptr = (- 1, h'))))"
  proof (intro impI allI, elim conjE)
    fix xs b x ys
    assume r: "reachable h" and blocks: "heap_blocks h = Some (xs @ (b, x) # ys)"
      and ptr: "ptr = b + 4"
    from reachable_wf [OF r] obtain bs0 where "wf_heap h bs0" ..
    with blocks have wf: "wf_heap h (xs @ (b, x) # ys)" by (simp add: wf_heap_blocks)
    note f = wf_block_facts [OF wf]
    from f(1) have al: "(b + 4) mod 8 = 0" by presburger
    have basic: "ptr \<noteq> NULL \<and> ptr mod 8 = 0 \<and> heap_start h \<le> ptr \<and>
        ptr \<le> heap_start h + alloc_size h \<and> mem h (ptr - 4) = x"
      using f(2,3,4,5,7) al by (simp add: ptr NULL_def)
    have fails: "fst (bfree h ptr) = - 1 \<longleftrightarrow> \<not> is_allocated x"
    proof (cases "is_allocated x")
      case True
      with bfree_allocated [OF wf True] show ?thesis by (auto simp: ptr)
    next
      case False
      with bfree_not_allocated [OF wf False] show ?thesis by (simp add: ptr)
    qed
    have succ: "\<exists>h'. bfree h ptr = (0, h') \<and>
        heap_blocks h' = Some (xs @ (b, x - 1) # clear_pred ys) \<and>
        \<not> is_allocated (x - 1) \<and> blk_size (x - 1) = blk_size x \<and>
        pred_allocated (x - 1) = pred_allocated x \<and>
        (\<forall>c y t. ys = (c, y) # t \<longrightarrow>
           c = b + blk_size x \<and> \<not> pred_allocated (y - 2) \<and>
           is_allocated (y - 2) = is_allocated y \<and> blk_size (y - 2) = blk_size y) \<and>
        (\<forall>u. u \<noteq> b \<and> u \<noteq> b + blk_size x \<longrightarrow> mem h' u = mem h u) \<and>
        bfree h' ptr = (- 1, h')" if a: "is_allocated x"
    proof -
      from bfree_allocated [OF wf a] obtain h' where h': "bfree h (b + 4) = (0, h')"
        "wf_heap h' (xs @ (b, x - 1) # clear_pred ys)"
        "\<forall>u. u \<noteq> b \<and> u \<noteq> b + blk_size x \<longrightarrow> mem h' u = mem h u" by blast
      note c = hdr_clear_a [OF f(6) a]
      have nxt: "c = b + blk_size x \<and> \<not> pred_allocated (y - 2) \<and>
          is_allocated (y - 2) = is_allocated y \<and> blk_size (y - 2) = blk_size y"
        if ys: "ys = (c, y) # t" for c y t
      proof -
        note at = chain_at [OF wf_heapD(1) [OF wf]]
        from at(4) ys have cy: "c = b + blk_size x" "hdr_ok y" by simp_all
        from wf_heapD(3) [OF wf] ys a have "pred_allocated y" by (simp add: pbits_append)
        from hdr_clear_p [OF cy(2) this] cy(1) show ?thesis by simp
      qed
      from bfree_not_allocated [OF h'(2) c(3)] have "bfree h' (b + 4) = (- 1, h')" .
      with h' c nxt wf_heap_blocks [OF h'(2)] show ?thesis unfolding ptr by blast
    qed
    from succ have imp: "is_allocated x \<longrightarrow>
            (\<exists>h'. bfree h ptr = (0, h') \<and>
               heap_blocks h' = Some (xs @ (b, x - 1) # clear_pred ys) \<and>
               \<not> is_allocated (x - 1) \<and> blk_size (x - 1) = blk_size x \<and>
               pred_allocated (x - 1) = pred_allocated x \<and>
               (\<forall>c y t. ys = (c, y) # t \<longrightarrow>
                  c = b + blk_size x \<and> \<not> pred_allocated (y - 2) \<and>
                  is_allocated (y - 2) = is_allocated y \<and> blk_size (y - 2) = blk_size y) \<and>
               (\<forall>u. u \<noteq> b \<and> u \<noteq> b + blk_size x \<longrightarrow> mem h' u = mem h u) \<and>
               bfree h' ptr = (- 1, h'))" by (rule impI)
    from basic fails imp
    show "ptr \<noteq> NULL \<and> ptr mod 8 = 0 \<and> heap_start h \<le> ptr \<and>
         ptr \<le> heap_start h + alloc_size h \<and> mem h (ptr - 4) = x \<and>
         (fst (bfree h ptr) = - 1 \<longleftrightarrow> \<not> is_allocated x) \<and>
         (is_allocated x \<longrightarrow>
            (\<exists>h'. bfree h ptr = (0, h') \<and>
               heap_blocks h' = Some (xs @ (b, x - 1) # clear_pred ys) \<and>
               \<not> is_allocated (x - 1) \<and> blk_size (x - 1) = blk_size x \<and>
               pred_allocated (x - 1) = pred_allocated x \<and>
               (\<forall>c y t. ys = (c, y) # t \<longrightarrow>
                  c = b + blk_size x \<and> \<not> pred_allocated (y - 2) \<and>
                  is_allocated (y - 2) = is_allocated y \<and> blk_size (y - 2) = blk_size y) \<and>
               (\<forall>u. u \<noteq> b \<and> u \<noteq> b + blk_size x \<longrightarrow> mem h' u = mem h u) \<and>
               bfree h' ptr = (- 1, h')))"
      by (elim conjE, intro conjI) assumption+
  qed
qed

theorem bfree_behaviour_witness:
  "reachable example_b1 \<and> heap_blocks example_b1 = Some [(65540, 107), (65644, 3986)] \<and>
   is_allocated 107 \<and>
   (\<exists>h'. bfree example_b1 65544 = (0, h') \<and>
      heap_blocks h' = Some [(65540, 106), (65644, 3984)] \<and> bfree h' 65544 = (- 1, h')) \<and>
   fst (bfree example_b1 65545) = - 1 \<and> snd (bfree example_b1 65545) = example_b1 \<and>
   fst (bfree example_b1 0) = - 1 \<and> fst (bfree example_b1 69632) = - 1 \<and>
   fst (bfree example_b1 65648) = - 1"
proof -
  note blocks = wf_heap_blocks [OF example_b1_st(1)]
  note t = bfree_behaviour [of example_b1]
  have a: "is_allocated 107" by (simp add: hdr_eval)
  from t [of 65544, THEN conjunct2, THEN conjunct2, THEN conjunct2, rule_format,
      OF example_b1_st(3), of "[]" 65540 107 "[(65644, 3986)]"] blocks a
  have "\<exists>h'. bfree example_b1 65544 = (0, h') \<and>
      heap_blocks h' = Some ([] @ (65540, 107 - 1) # clear_pred [(65644, 3986)]) \<and>
      bfree h' 65544 = (- 1, h')"
    by simp blast
  then have 1: "\<exists>h'. bfree example_b1 65544 = (0, h') \<and>
      heap_blocks h' = Some [(65540, 106), (65644, 3984)] \<and> bfree h' 65544 = (- 1, h')"
    by simp
  from t [of 65545, THEN conjunct1] have 2: "fst (bfree example_b1 65545) = - 1" by simp
  with t [of 65545] have 3: "snd (bfree example_b1 65545) = example_b1" by blast
  from t [of 0, THEN conjunct1] have 4: "fst (bfree example_b1 0) = - 1"
    by (simp add: NULL_def)
  from t [of 69632, THEN conjunct1] have 5: "fst (bfree example_b1 69632) = - 1"
    by (simp add: example_b1_st(4,5))
  from t [of 65648, THEN conjunct2, THEN conjunct2, THEN conjunct2, rule_format,
      OF example_b1_st(3), of "[(65540, 107)]" 65644 3986 "[]"] blocks
  have 6: "fst (bfree example_b1 65648) = - 1" by (simp add: hdr_eval)
  from 1 2 3 4 5 6 a example_b1_st(3) blocks show ?thesis by simp
qed

end
